theory Spec2Isabelle
  imports Main
begin

section \<open>Data model\<close>

text \<open>
  A record node of \<^verbatim>\<open>update_locations.py\<close> is the dictionary
  \<^verbatim>\<open>{'level', 'tag', 'value', 'xref_id', 'children'}\<close>. A Python string is a sequence
  of code points; a \<^typ>\<open>char\<close> stands for one code point below 256. Python's integers
  are unbounded, so a level is an \<^typ>\<open>int\<close>. The selector of the key
  \<^verbatim>\<open>'value'\<close> is called \<open>val\<close>.
\<close>

datatype node =
  Node (level: int) (tag: string) (val: string) (xref_id: "string option") (children: "node list")

text \<open>
  An item of the YAML data, as \<^verbatim>\<open>update_record\<close> reads it: the optional key
  \<^verbatim>\<open>'names'\<close> (a list of entries with the key \<^verbatim>\<open>'name'\<close> and the optional key
  \<^verbatim>\<open>'period'\<close>) and the optional key \<^verbatim>\<open>'parents'\<close> (a list of entries read with
  \<^verbatim>\<open>p.get('id')\<close> and the optional key \<^verbatim>\<open>'period'\<close>).
\<close>

datatype name_entry = NameEntry (name: string) (period: "string option")

datatype parent_entry = ParentEntry (parent_id: "string option") (parent_period: "string option")

datatype yaml_item =
  YamlItem (names: "name_entry list option") (parents: "parent_entry list option")

section \<open>The record merger\<close>

text \<open>
  \<^verbatim>\<open>create_chan_node\<close> reads the clock; the two formatted strings are its parameter.
\<close>

definition create_chan_node :: "string \<times> string \<Rightarrow> node" where
  "create_chan_node now =
     Node 1 ''CHAN'' '''' None
       [Node 2 ''DATE'' (fst now) None [Node 3 ''TIME'' (snd now) None []]]"

text \<open>
  The first loop of \<^verbatim>\<open>update_record\<close> updates four local variables, one child at a
  time; \<open>scan\<close> is their tuple.
\<close>

record scan =
  name_abbrs :: "string \<rightharpoonup> string"
  preserved_children :: "node list"
  has_uid :: bool
  existing_chan :: "node option"

definition scan_init :: scan where
  "scan_init =
     \<lparr>name_abbrs = Map.empty, preserved_children = [], has_uid = False, existing_chan = None\<rparr>"

text \<open>The inner loop over the sub-nodes of a NAME child.\<close>

fun scan_subs :: "string \<Rightarrow> node list \<Rightarrow> (string \<rightharpoonup> string) \<Rightarrow> (string \<rightharpoonup> string)" where
  "scan_subs name_val [] m = m"
| "scan_subs name_val (sub # subs) m =
     scan_subs name_val subs (if tag sub = ''ABBR'' then m(name_val \<mapsto> val sub) else m)"

definition scan_child :: "node \<Rightarrow> scan \<Rightarrow> scan" where
  "scan_child child st =
     (if tag child = ''NAME'' then
        st\<lparr>name_abbrs := scan_subs (val child) (children child) (name_abbrs st)\<rparr>
      else if tag child = ''_UID'' then
        st\<lparr>preserved_children := preserved_children st @ [child], has_uid := True\<rparr>
      else if tag child = ''CHAN'' then
        st\<lparr>existing_chan := Some child\<rparr>
      else if tag child \<notin> set [''NAME'', ''_LOC'', ''CHAN''] then
        st\<lparr>preserved_children := preserved_children st @ [child]\<rparr>
      else st)"

fun scan_children :: "node list \<Rightarrow> scan \<Rightarrow> scan" where
  "scan_children [] st = st"
| "scan_children (child # cs) st = scan_children cs (scan_child child st)"

text \<open>The body of the loop over \<^verbatim>\<open>yaml_item['names']\<close>.\<close>

definition name_node :: "(string \<rightharpoonup> string) \<Rightarrow> name_entry \<Rightarrow> node" where
  "name_node abbrs n =
     Node 1 ''NAME'' (name n) None
       ((case abbrs (name n) of
           Some a \<Rightarrow> [Node 2 ''ABBR'' a None []]
         | None \<Rightarrow> []) @
        (case period n of
           Some p \<Rightarrow> [Node 2 ''DATE'' p None []]
         | None \<Rightarrow> []))"

fun names_loop :: "(string \<rightharpoonup> string) \<Rightarrow> name_entry list \<Rightarrow> node list \<Rightarrow> node list" where
  "names_loop abbrs [] new_children = new_children"
| "names_loop abbrs (n # ns) new_children =
     names_loop abbrs ns (new_children @ [name_node abbrs n])"

text \<open>
  The body of the loop over \<^verbatim>\<open>yaml_item['parents']\<close>. \<^verbatim>\<open>if pid:\<close> holds for a string
  that is present and not empty.
\<close>

definition loc_node :: "string \<Rightarrow> parent_entry \<Rightarrow> node" where
  "loc_node pid p =
     Node 1 ''_LOC'' (''@'' @ pid @ ''@'') None
       (case parent_period p of
          Some d \<Rightarrow> [Node 2 ''DATE'' d None []]
        | None \<Rightarrow> [])"

fun parents_loop :: "parent_entry list \<Rightarrow> node list \<Rightarrow> node list" where
  "parents_loop [] new_children = new_children"
| "parents_loop (p # ps) new_children =
     parents_loop ps
       (case parent_id p of
          None \<Rightarrow> new_children
        | Some pid \<Rightarrow> if pid \<noteq> [] then new_children @ [loc_node pid p] else new_children)"

text \<open>
  \<^verbatim>\<open>update_record\<close> assigns the rebuilt list to \<^verbatim>\<open>record['children']\<close>; the model
  returns the record with the new children. \<open>uid\<close> is what \<^verbatim>\<open>generate_uid()\<close> returns
  when it is called, \<open>now\<close> what the clock gives \<^verbatim>\<open>create_chan_node()\<close>.
\<close>

definition update_record :: "string \<Rightarrow> string \<times> string \<Rightarrow> node \<Rightarrow> yaml_item \<Rightarrow> node" where
  "update_record uid now record yaml_item =
     (let st = scan_children (children record) scan_init;
          preserved =
            (if \<not> has_uid st then Node 1 ''_UID'' uid None [] # preserved_children st
             else preserved_children st);
          new_children1 =
            (case names yaml_item of
               Some ns \<Rightarrow> names_loop (name_abbrs st) ns []
             | None \<Rightarrow> []);
          new_children =
            (case parents yaml_item of
               Some ps \<Rightarrow> parents_loop ps new_children1
             | None \<Rightarrow> new_children1);
          uid_nodes = filter (\<lambda>c. tag c = ''_UID'') preserved;
          other_preserved = filter (\<lambda>c. tag c \<noteq> ''_UID'') preserved;
          final_list =
            uid_nodes @
            [case existing_chan st of Some c \<Rightarrow> c | None \<Rightarrow> create_chan_node now] @
            other_preserved @ new_children
      in Node (level record) (tag record) (val record) (xref_id record) final_list)"

definition create_new_record :: "string \<Rightarrow> string \<times> string \<Rightarrow> string \<Rightarrow> yaml_item \<Rightarrow> node" where
  "create_new_record uid now rec_id yaml_item =
     update_record uid now (Node 0 ''_LOC'' '''' (Some (''@'' @ rec_id @ ''@'')) []) yaml_item"

section \<open>Python's string and integer primitives\<close>

text \<open>\<^verbatim>\<open>str.strip()\<close> removes the characters for which \<^verbatim>\<open>str.isspace\<close> holds.\<close>

definition is_space :: "char \<Rightarrow> bool" where
  "is_space c =
     (c \<in> set [CHR 0x09, CHR 0x0A, CHR 0x0B, CHR 0x0C, CHR 0x0D, CHR 0x1C, CHR 0x1D,
                CHR 0x1E, CHR 0x1F, CHR 0x20, CHR 0x85, CHR 0xA0])"

definition strip :: "string \<Rightarrow> string" where
  "strip s = rev (dropWhile is_space (rev (dropWhile is_space s)))"

text \<open>\<^verbatim>\<open>s.strip('@')\<close>.\<close>

definition strip_at :: "string \<Rightarrow> string" where
  "strip_at s =
     rev (dropWhile (\<lambda>c. c = CHR ''@'') (rev (dropWhile (\<lambda>c. c = CHR ''@'') s)))"

text \<open>\<^verbatim>\<open>s.split(' ', n)\<close>: at most \<open>n\<close> splits, at single spaces, from the left.\<close>

fun split_sp :: "nat \<Rightarrow> string \<Rightarrow> string list" where
  "split_sp 0 s = [s]"
| "split_sp (Suc n) s =
     (if CHR '' '' \<in> set s then
        takeWhile (\<lambda>c. c \<noteq> CHR '' '') s #
        split_sp n (tl (dropWhile (\<lambda>c. c \<noteq> CHR '' '') s))
      else [s])"

text \<open>\<^verbatim>\<open>sep.join(xs)\<close>.\<close>

fun join :: "string \<Rightarrow> string list \<Rightarrow> string" where
  "join sep [] = []"
| "join sep [x] = x"
| "join sep (x # y # ys) = x @ sep @ join sep (y # ys)"

definition startswith_at :: "string \<Rightarrow> bool" where
  "startswith_at s = (case s of [] \<Rightarrow> False | c # _ \<Rightarrow> c = CHR ''@'')"

definition endswith_at :: "string \<Rightarrow> bool" where
  "endswith_at s = startswith_at (rev s)"

text \<open>
  \<^verbatim>\<open>int(s)\<close>: white space around (only the characters below count here), an optional
  sign, then decimal digits, where one underscore may stand between two digits.
  \<open>None\<close> is \<^verbatim>\<open>ValueError\<close>. The bound that recent versions of Python put on
  the number of digits is left out.
\<close>

definition is_int_space :: "char \<Rightarrow> bool" where
  "is_int_space c =
     (c \<in> set [CHR 0x09, CHR 0x0A, CHR 0x0B, CHR 0x0C, CHR 0x0D, CHR 0x20, CHR 0x85, CHR 0xA0])"

definition is_digit :: "char \<Rightarrow> bool" where
  "is_digit c = (c \<in> set ''0123456789'')"

definition digit_val :: "char \<Rightarrow> nat" where
  "digit_val c = of_char c - 48"

fun int_digits :: "string \<Rightarrow> nat \<Rightarrow> nat option" where
  "int_digits [] acc = Some acc"
| "int_digits (c # cs) acc =
     (if is_digit c then int_digits cs (10 * acc + digit_val c)
      else if c = CHR ''_'' then
        (case cs of
           [] \<Rightarrow> None
         | d # ds \<Rightarrow> if is_digit d then int_digits ds (10 * acc + digit_val d) else None)
      else None)"

definition nat_of_string :: "string \<Rightarrow> nat option" where
  "nat_of_string s =
     (case s of
        [] \<Rightarrow> None
      | c # cs \<Rightarrow> if is_digit c then int_digits cs (digit_val c) else None)"

definition py_int :: "string \<Rightarrow> int option" where
  "py_int s =
     (case rev (dropWhile is_int_space (rev (dropWhile is_int_space s))) of
        [] \<Rightarrow> None
      | c # cs \<Rightarrow>
          if c = CHR ''-'' then map_option (\<lambda>n. - int n) (nat_of_string cs)
          else if c = CHR ''+'' then map_option int (nat_of_string cs)
          else map_option int (nat_of_string (c # cs)))"

text \<open>\<^verbatim>\<open>str(i)\<close> for an integer.\<close>

fun nat_digits :: "nat \<Rightarrow> string" where
  "nat_digits n =
     (if n < 10 then [''0123456789'' ! n]
      else nat_digits (n div 10) @ [''0123456789'' ! (n mod 10)])"

definition py_str :: "int \<Rightarrow> string" where
  "py_str i = (if i < 0 then CHR ''-'' # nat_digits (nat (- i)) else nat_digits (nat i))"

section \<open>The parser\<close>

datatype error = IndexError

text \<open>
  \<^verbatim>\<open>parse_gedcom_lines\<close> keeps references to the node dictionaries it has created:
  in \<^verbatim>\<open>stack\<close> and in \<^verbatim>\<open>id_map\<close>. Every such node is in the forest
  \<^verbatim>\<open>all_records\<close>, so a reference is modelled as the position of the node there: the
  index of a top-level record, followed by the index in the children of each node on the
  way down. Appending a child through a reference updates the forest at that position.
\<close>

type_synonym node_ref = "nat list"

fun children_at :: "node_ref \<Rightarrow> node list \<Rightarrow> node list" where
  "children_at [] ns = []"
| "children_at (i # p) ns =
     (if i < length ns then (if p = [] then children (ns ! i) else children_at p (children (ns ! i)))
      else [])"

fun append_child :: "node_ref \<Rightarrow> node \<Rightarrow> node list \<Rightarrow> node list" where
  "append_child [] node ns = ns"
| "append_child (i # p) node ns =
     (if i < length ns then
        ns[i := Node (level (ns ! i)) (tag (ns ! i)) (val (ns ! i)) (xref_id (ns ! i))
                  (if p = [] then children (ns ! i) @ [node]
                   else append_child p node (children (ns ! i)))]
      else ns)"

text \<open>
  The local variables of the loop. The head of \<open>stack\<close> is the top \<^verbatim>\<open>stack[-1]\<close>;
  \<open>id_map\<close> gives the index of the record in \<open>all_records\<close>.
\<close>

record parse_state =
  all_records :: "node list"
  id_map :: "string \<rightharpoonup> nat"
  stack :: "(int \<times> node_ref) list"

definition parse_init :: parse_state where
  "parse_init = \<lparr>all_records = [], id_map = Map.empty, stack = []\<rparr>"

text \<open>
  Lines 24 to 54: the fields of a line. \<open>Inr None\<close> is \<^verbatim>\<open>continue\<close>; the fields are
  level, tag, value and xref_id. \<^verbatim>\<open>parts[1]\<close> in the last branch raises when the line
  has one part only.
\<close>

definition line_fields :: "string \<Rightarrow> error + (int \<times> string \<times> string \<times> string option) option" where
  "line_fields line =
     (let stripped = strip line in
      if stripped = [] then Inr None
      else
        (case split_sp 2 stripped of
           [] \<Rightarrow> Inl IndexError
         | p0 # ps \<Rightarrow>
             (case py_int p0 of
                None \<Rightarrow> Inr None
              | Some lev \<Rightarrow>
                  (case ps of
                     [] \<Rightarrow> Inl IndexError
                   | p1 # ps2 \<Rightarrow>
                       if startswith_at p1 \<and> endswith_at p1 then
                         (case ps2 of
                            [] \<Rightarrow> Inr (Some (lev, '''', '''', Some p1))
                          | rest # _ \<Rightarrow>
                              (case split_sp 1 rest of
                                 [] \<Rightarrow> Inl IndexError
                               | t # rest_parts \<Rightarrow>
                                   Inr (Some (lev, t,
                                     (case rest_parts of [] \<Rightarrow> '''' | v # _ \<Rightarrow> v), Some p1))))
                       else
                         Inr (Some (lev, p1, (case ps2 of [] \<Rightarrow> '''' | p2 # _ \<Rightarrow> p2), None))))))"

text \<open>\<^verbatim>\<open>if x:\<close> for an optional string.\<close>

definition truthy :: "string option \<Rightarrow> bool" where
  "truthy x = (case x of None \<Rightarrow> False | Some s \<Rightarrow> s \<noteq> [])"

text \<open>\<^verbatim>\<open>while stack and stack[-1][0] >= level: stack.pop()\<close>.\<close>

fun pop_stack :: "int \<Rightarrow> (int \<times> node_ref) list \<Rightarrow> (int \<times> node_ref) list" where
  "pop_stack lev [] = []"
| "pop_stack lev (e # st) = (if fst e \<ge> lev then pop_stack lev st else e # st)"

text \<open>Lines 56 to 83: the garbage check and the placement of the new node.\<close>

definition add_node :: "int \<times> string \<times> string \<times> string option \<Rightarrow> parse_state \<Rightarrow> parse_state" where
  "add_node f st =
     (case f of (lev, t, v, x) \<Rightarrow>
        if lev = 0 \<and> t = ''_LOC'' \<and> startswith_at v \<and> endswith_at v \<and> \<not> truthy x then st
        else
          let node = Node lev t v x [] in
          if lev = 0 then
            \<lparr>all_records = all_records st @ [node],
             id_map =
               (if t = ''_LOC'' \<and> truthy x then (id_map st)(strip_at (the x) \<mapsto> length (all_records st))
                else id_map st),
             stack = [(0, [length (all_records st)])]\<rparr>
          else
            (case pop_stack lev (stack st) of
               [] \<Rightarrow> st\<lparr>stack := []\<rparr>
             | (l, r) # rest \<Rightarrow>
                 \<lparr>all_records = append_child r node (all_records st),
                  id_map = id_map st,
                  stack = (lev, r @ [length (children_at r (all_records st))]) # (l, r) # rest\<rparr>))"

definition parse_line :: "string \<Rightarrow> parse_state \<Rightarrow> error + parse_state" where
  "parse_line line st =
     (case line_fields line of
        Inl e \<Rightarrow> Inl e
      | Inr None \<Rightarrow> Inr st
      | Inr (Some f) \<Rightarrow> Inr (add_node f st))"

fun parse_lines :: "string list \<Rightarrow> parse_state \<Rightarrow> error + parse_state" where
  "parse_lines [] st = Inr st"
| "parse_lines (line # lines) st =
     (case parse_line line st of
        Inl e \<Rightarrow> Inl e
      | Inr st' \<Rightarrow> parse_lines lines st')"

definition parse_gedcom_lines :: "string list \<Rightarrow> error + node list \<times> (string \<rightharpoonup> nat)" where
  "parse_gedcom_lines lines =
     (case parse_lines lines parse_init of
        Inl e \<Rightarrow> Inl e
      | Inr st \<Rightarrow> Inr (all_records st, id_map st))"

text \<open>
  Reading a file in text mode: \<^verbatim>\<open>\r\n\<close> and \<^verbatim>\<open>\r\<close> become \<^verbatim>\<open>\n\<close>, and
  \<^verbatim>\<open>readlines\<close> cuts after every \<^verbatim>\<open>\n\<close>.
\<close>

fun universal_newlines :: "string \<Rightarrow> string" where
  "universal_newlines [] = []"
| "universal_newlines (c # cs) =
     (if c = CHR 0x0D then
        (case cs of
           [] \<Rightarrow> [CHR 0x0A]
         | d # ds \<Rightarrow>
             if d = CHR 0x0A then CHR 0x0A # universal_newlines ds
             else CHR 0x0A # universal_newlines cs)
      else c # universal_newlines cs)"

fun cut_lines :: "string \<Rightarrow> string \<Rightarrow> string list" where
  "cut_lines cur [] = (if cur = [] then [] else [cur])"
| "cut_lines cur (c # cs) =
     (if c = CHR 0x0A then (cur @ [c]) # cut_lines [] cs else cut_lines (cur @ [c]) cs)"

definition readlines :: "string \<Rightarrow> string list" where
  "readlines text = cut_lines [] (universal_newlines text)"

text \<open>\<^verbatim>\<open>parse_gedcom\<close>: \<open>None\<close> is a path at which no file exists.\<close>

definition parse_gedcom :: "string option \<Rightarrow> error + node list \<times> (string \<rightharpoonup> nat)" where
  "parse_gedcom file =
     (case file of
        None \<Rightarrow> Inr ([], Map.empty)
      | Some text \<Rightarrow> parse_gedcom_lines (readlines text))"

section \<open>The serializer\<close>

fun serialize_record :: "node \<Rightarrow> string" where
  "serialize_record (Node lev t v x cs) =
     join [CHR 0x0A]
       (join '' '' ([py_str lev] @ (if truthy x then [the x] else []) @ [t] @
                    (if v \<noteq> [] then [v] else []))
        # map serialize_record cs)"

text \<open>
  What \<^verbatim>\<open>main\<close> writes: every record, followed by a line break. Where the platform
  writes a line break as \<^verbatim>\<open>\r\n\<close>, reading in text mode gives \<^verbatim>\<open>\n\<close> back, so
  the text is kept as the program holds it.
\<close>

definition write_records :: "node list \<Rightarrow> string" where
  "write_records records = concat (map (\<lambda>r. serialize_record r @ [CHR 0x0A]) records)"

section \<open>The orchestrator\<close>

text \<open>
  The loop over \<^verbatim>\<open>yaml_data.items()\<close>. \<open>uids i\<close> and \<open>clock i\<close> are the random
  identifier and the time that the \<open>i\<close>-th pass of the loop draws, if it draws one.
\<close>

fun merge_loop ::
  "(nat \<Rightarrow> string) \<Rightarrow> (nat \<Rightarrow> string \<times> string) \<Rightarrow> nat \<Rightarrow> (string \<times> yaml_item) list \<Rightarrow>
   node list \<times> (string \<rightharpoonup> nat) \<Rightarrow> node list \<times> (string \<rightharpoonup> nat)" where
  "merge_loop uids clock i [] st = st"
| "merge_loop uids clock i ((y_id, y_item) # ys) st =
     merge_loop uids clock (Suc i) ys
       (case snd st y_id of
          Some k \<Rightarrow> ((fst st)[k := update_record (uids i) (clock i) (fst st ! k) y_item], snd st)
        | None \<Rightarrow>
            (fst st @ [create_new_record (uids i) (clock i) y_id y_item],
             (snd st)(y_id \<mapsto> length (fst st))))"

text \<open>The index of the first record with the tag TRLR, counted from \<open>i\<close>.\<close>

fun find_trlr :: "nat \<Rightarrow> node list \<Rightarrow> nat option" where
  "find_trlr i [] = None"
| "find_trlr i (r # rs) = (if tag r = ''TRLR'' then Some i else find_trlr (Suc i) rs)"

definition move_trlr :: "node list \<Rightarrow> node list" where
  "move_trlr records =
     (case find_trlr 0 records of
        Some i \<Rightarrow> (take i records @ drop (Suc i) records) @ [records ! i]
      | None \<Rightarrow> records @ [Node 0 ''TRLR'' '''' None []])"

text \<open>The list \<^verbatim>\<open>records\<close> when \<^verbatim>\<open>main\<close> starts to write, and the text it writes.\<close>

definition main_records ::
  "(nat \<Rightarrow> string) \<Rightarrow> (nat \<Rightarrow> string \<times> string) \<Rightarrow> string option \<Rightarrow> (string \<times> yaml_item) list \<Rightarrow>
   error + node list" where
  "main_records uids clock file yaml_data =
     (case parse_gedcom file of
        Inl e \<Rightarrow> Inl e
      | Inr st \<Rightarrow> Inr (move_trlr (fst (merge_loop uids clock 0 yaml_data st))))"

definition main ::
  "(nat \<Rightarrow> string) \<Rightarrow> (nat \<Rightarrow> string \<times> string) \<Rightarrow> string option \<Rightarrow> (string \<times> yaml_item) list \<Rightarrow>
   error + string" where
  "main uids clock file yaml_data =
     (case main_records uids clock file yaml_data of
        Inl e \<Rightarrow> Inl e
      | Inr records \<Rightarrow> Inr (write_records records))"

section \<open>Notions used in the statements\<close>

text \<open>The number of nodes of a list that carry a given tag.\<close>

definition count_tag :: "string \<Rightarrow> node list \<Rightarrow> nat" where
  "count_tag t cs = length (filter (\<lambda>c. tag c = t) cs)"

text \<open>
  The values of the ABBR sub-nodes of the NAME children whose value is \<open>k\<close>, in the order
  of the list.
\<close>

definition abbr_values :: "string \<Rightarrow> node list \<Rightarrow> string list" where
  "abbr_values k cs =
     concat (map (\<lambda>c. if tag c = ''NAME'' \<and> val c = k
                        then map val (filter (\<lambda>s. tag s = ''ABBR'') (children c)) else []) cs)"

text \<open>
  The five segments of the children of a merged record: the unique-id nodes, the
  change-metadata node, the other preserved children, and (from the external record) the
  name nodes and the parent links.
\<close>

definition uid_part :: "string \<Rightarrow> node list \<Rightarrow> node list" where
  "uid_part uid cs =
     (if filter (\<lambda>c. tag c = ''_UID'') cs = [] then [Node 1 ''_UID'' uid None []]
      else filter (\<lambda>c. tag c = ''_UID'') cs)"

definition chan_part :: "string \<times> string \<Rightarrow> node list \<Rightarrow> node" where
  "chan_part now cs =
     (if filter (\<lambda>c. tag c = ''CHAN'') cs = [] then create_chan_node now
      else last (filter (\<lambda>c. tag c = ''CHAN'') cs))"

definition kept_part :: "node list \<Rightarrow> node list" where
  "kept_part cs = filter (\<lambda>c. tag c \<notin> {''NAME'', ''_LOC'', ''CHAN'', ''_UID''}) cs"

definition names_of :: "yaml_item \<Rightarrow> name_entry list" where
  "names_of y = (case names y of None \<Rightarrow> [] | Some ns \<Rightarrow> ns)"

definition parents_of :: "yaml_item \<Rightarrow> parent_entry list" where
  "parents_of y = (case parents y of None \<Rightarrow> [] | Some ps \<Rightarrow> ps)"

definition abbrs_of :: "node list \<Rightarrow> string \<rightharpoonup> string" where
  "abbrs_of cs = name_abbrs (scan_children cs scan_init)"

definition loc_nodes :: "parent_entry list \<Rightarrow> node list" where
  "loc_nodes ps =
     concat (map (\<lambda>p. case parent_id p of
                          None \<Rightarrow> []
                        | Some pid \<Rightarrow> if pid \<noteq> [] then [loc_node pid p] else []) ps)"

text \<open>
  The same segments written out, with no reference to the functions of the program: the
  change-metadata node (the last CHAN child, or a CHAN node with a DATE sub-node that holds
  a TIME sub-node), the NAME node of every name of the external record (with the last
  abbreviation found under the NAME children of that value, if there is one, and the
  period, if there is one), and the _LOC node of every parent that has an identifier.
\<close>

definition chan_segment :: "string \<times> string \<Rightarrow> node list \<Rightarrow> node" where
  "chan_segment now cs =
     (if filter (\<lambda>c. tag c = ''CHAN'') cs = []
      then Node 1 ''CHAN'' '''' None
             [Node 2 ''DATE'' (fst now) None [Node 3 ''TIME'' (snd now) None []]]
      else last (filter (\<lambda>c. tag c = ''CHAN'') cs))"

definition name_segment :: "node list \<Rightarrow> name_entry list \<Rightarrow> node list" where
  "name_segment cs ns =
     map (\<lambda>n. Node 1 ''NAME'' (name n) None
                 ((if abbr_values (name n) cs = [] then []
                   else [Node 2 ''ABBR'' (last (abbr_values (name n) cs)) None []]) @
                  (case period n of None \<Rightarrow> [] | Some p \<Rightarrow> [Node 2 ''DATE'' p None []]))) ns"

definition link_segment :: "parent_entry list \<Rightarrow> node list" where
  "link_segment ps =
     concat (map (\<lambda>p. case parent_id p of
                          None \<Rightarrow> []
                        | Some pid \<Rightarrow>
                            if pid = [] then []
                            else [Node 1 ''_LOC'' (''@'' @ pid @ ''@'') None
                                    (case parent_period p of
                                       None \<Rightarrow> []
                                     | Some d \<Rightarrow> [Node 2 ''DATE'' d None []])]) ps)"

section \<open>Notions used for the round trip\<close>

text \<open>
  The fields of a node, and the first line that \<^verbatim>\<open>serialize_record\<close> writes for them.
\<close>

definition fields :: "node \<Rightarrow> int \<times> string \<times> string \<times> string option" where
  "fields n = (level n, tag n, val n, xref_id n)"

definition fields_line :: "int \<times> string \<times> string \<times> string option \<Rightarrow> string" where
  "fields_line f =
     (case f of (lev, t, v, x) \<Rightarrow>
        join '' '' ([py_str lev] @ (if truthy x then [the x] else []) @ [t] @
                    (if v \<noteq> [] then [v] else [])))"

text \<open>The fields of a node and of its descendants, in the order of the lines.\<close>

fun preorder :: "node \<Rightarrow> (int \<times> string \<times> string \<times> string option) list" where
  "preorder (Node lev t v x cs) = (lev, t, v, x) # concat (map preorder cs)"

text \<open>A string without a line feed and without a carriage return.\<close>

definition clean :: "string \<Rightarrow> bool" where
  "clean s = (CHR 0x0A \<notin> set s \<and> CHR 0x0D \<notin> set s)"

text \<open>The fields that the check of lines 56 to 60 skips.\<close>

definition is_garbage :: "int \<times> string \<times> string \<times> string option \<Rightarrow> bool" where
  "is_garbage f =
     (case f of (lev, t, v, x) \<Rightarrow>
        lev = 0 \<and> t = ''_LOC'' \<and> startswith_at v \<and> endswith_at v \<and> \<not> truthy x)"

text \<open>
  What holds of the fields that \<open>line_fields\<close> reads from a line of a file: the tag has
  no space, the last field that is not empty does not end in white space, a tag that is
  read without a cross-reference id does not look like one, and a cross-reference id
  starts and ends with \<^verbatim>\<open>@\<close> and has no space.
\<close>

definition tok_wf :: "int \<times> string \<times> string \<times> string option \<Rightarrow> bool" where
  "tok_wf f =
     (case f of (lev, t, v, x) \<Rightarrow>
        CHR '' '' \<notin> set t \<and> clean t \<and> clean v \<and>
        (v \<noteq> [] \<longrightarrow> \<not> is_space (last v)) \<and>
        (v = [] \<and> t \<noteq> [] \<longrightarrow> \<not> is_space (last t)) \<and>
        (case x of
           None \<Rightarrow> \<not> (startswith_at t \<and> endswith_at t) \<and> (v = [] \<longrightarrow> t \<noteq> [])
         | Some xr \<Rightarrow> startswith_at xr \<and> endswith_at xr \<and> CHR '' '' \<notin> set xr \<and> clean xr))"

text \<open>
  What holds of the trees that the parser builds: the level of a child is above the level
  of its parent, and the levels of the children of a node do not increase from one child to
  the next (a later child with a higher level would have become a descendant of the
  earlier one). The records of a forest have level 0 and are not garbage.
\<close>

fun node_wf :: "node \<Rightarrow> bool" where
  "node_wf (Node lev t v x cs) =
     (tok_wf (lev, t, v, x) \<and> (\<forall>c\<in>set cs. lev < level c \<and> node_wf c) \<and>
      sorted_wrt (\<lambda>a b. level b \<le> level a) cs)"

definition forest_wf :: "node list \<Rightarrow> bool" where
  "forest_wf rs = (\<forall>r\<in>set rs. level r = 0 \<and> node_wf r \<and> \<not> is_garbage (fields r))"

text \<open>
  The stack of the parser, when it is not empty, is the path from the last record down
  through the last child of each node: \<open>rspine rs\<close>, the deepest node first, every node
  with its level and its position in \<open>rs\<close>.
\<close>

definition pre :: "nat \<Rightarrow> int \<times> node_ref \<Rightarrow> int \<times> node_ref" where
  "pre k e = (fst e, k # snd e)"

fun rspine_node :: "node \<Rightarrow> (int \<times> node_ref) list" where
  "rspine_node (Node lev t v x cs) =
     (if cs = [] then [] else map (pre (length cs - 1)) (last (map rspine_node cs))) @ [(lev, [])]"

definition rspine :: "node list \<Rightarrow> (int \<times> node_ref) list" where
  "rspine rs = (if rs = [] then [] else map (pre (length rs - 1)) (rspine_node (last rs)))"

text \<open>
  \<open>attach c rs\<close> is the forest \<open>rs\<close> with the node \<open>c\<close> as a new last child of the
  deepest node, on the way down from the last record through the last children, whose
  level is below the level of \<open>c\<close>.
\<close>

fun attach_node :: "node \<Rightarrow> node \<Rightarrow> node" where
  "attach_node c (Node lev t v x cs) =
     Node lev t v x
       (if cs \<noteq> [] \<and> level (last cs) < level c
        then butlast cs @ [last (map (attach_node c) cs)] else cs @ [c])"

definition attach :: "node \<Rightarrow> node list \<Rightarrow> node list" where
  "attach c rs = butlast rs @ [attach_node c (last rs)]"

text \<open>The invariant of the loop of \<^verbatim>\<open>parse_gedcom_lines\<close>.\<close>

definition parse_inv :: "parse_state \<Rightarrow> bool" where
  "parse_inv st =
     (forest_wf (all_records st) \<and> (stack st = [] \<or> stack st = rspine (all_records st)))"

text \<open>
  The node of a tree that is written last, and the tree without it; \<open>remove_last\<close> is
  the forest without the node that is written last.
\<close>

fun last_leaf :: "node \<Rightarrow> node" where
  "last_leaf (Node lev t v x cs) =
     (if cs = [] then Node lev t v x [] else last (map last_leaf cs))"

fun remove_leaf :: "node \<Rightarrow> node" where
  "remove_leaf (Node lev t v x cs) =
     Node lev t v x
       (if cs = [] then []
        else if children (last cs) = [] then butlast cs
        else butlast cs @ [last (map remove_leaf cs)])"

definition remove_last :: "node list \<Rightarrow> node list" where
  "remove_last rs =
     (if children (last rs) = [] then butlast rs else butlast rs @ [remove_leaf (last rs)])"

text \<open>
  The identifier index that belongs to a list of records: the key under which a record
  is entered, if it is entered, and the index built from the keys in the order of the
  records.
\<close>

definition id_key :: "node \<Rightarrow> string option" where
  "id_key r =
     (if tag r = ''_LOC'' \<and> truthy (xref_id r) then Some (strip_at (the (xref_id r))) else None)"

fun index_keys :: "nat \<Rightarrow> string option list \<Rightarrow> (string \<rightharpoonup> nat) \<Rightarrow> (string \<rightharpoonup> nat)" where
  "index_keys i [] m = m"
| "index_keys i (k # ks) m =
     index_keys (Suc i) ks (case k of None \<Rightarrow> m | Some key \<Rightarrow> m(key \<mapsto> i))"

definition id_index :: "node list \<Rightarrow> (string \<rightharpoonup> nat)" where
  "id_index rs = index_keys 0 (map id_key rs) Map.empty"

section \<open>The merger: what the loops compute\<close>

lemma scan_subs_apply:
  "scan_subs k subs m k' =
     (if k' = k \<and> filter (\<lambda>s. tag s = ''ABBR'') subs \<noteq> []
      then Some (last (map val (filter (\<lambda>s. tag s = ''ABBR'') subs))) else m k')"
  by (induction subs arbitrary: m) auto

lemma preserved_scan_children:
  "preserved_children (scan_children cs st) =
     preserved_children st @ filter (\<lambda>c. tag c \<noteq> ''NAME'' \<and> tag c \<noteq> ''_LOC'' \<and> tag c \<noteq> ''CHAN'') cs"
  by (induction cs arbitrary: st) (auto simp: scan_child_def)

lemma has_uid_scan_children:
  "has_uid (scan_children cs st) = (has_uid st \<or> filter (\<lambda>c. tag c = ''_UID'') cs \<noteq> [])"
  by (induction cs arbitrary: st) (auto simp: scan_child_def)

lemma existing_chan_scan_children:
  "existing_chan (scan_children cs st) =
     (if filter (\<lambda>c. tag c = ''CHAN'') cs = [] then existing_chan st
      else Some (last (filter (\<lambda>c. tag c = ''CHAN'') cs)))"
  by (induction cs arbitrary: st) (auto simp: scan_child_def)

lemma name_abbrs_scan_child:
  "name_abbrs (scan_child c st) k =
     (if tag c = ''NAME'' \<and> val c = k \<and> filter (\<lambda>s. tag s = ''ABBR'') (children c) \<noteq> []
      then Some (last (map val (filter (\<lambda>s. tag s = ''ABBR'') (children c))))
      else name_abbrs st k)"
proof (cases "tag c = ''NAME''")
  case True
  then show ?thesis
    by (simp add: scan_child_def scan_subs_apply)
next
  case False
  then show ?thesis
    by (simp add: scan_child_def)
qed

lemma abbr_values_Cons:
  "abbr_values k (c # cs) =
     (if tag c = ''NAME'' \<and> val c = k
      then map val (filter (\<lambda>s. tag s = ''ABBR'') (children c)) else []) @ abbr_values k cs"
  by (simp add: abbr_values_def)

lemma name_abbrs_scan_children:
  "name_abbrs (scan_children cs st) k =
     (if abbr_values k cs = [] then name_abbrs st k else Some (last (abbr_values k cs)))"
proof (induction cs arbitrary: st)
  case Nil
  show ?case by (simp add: abbr_values_def)
next
  case (Cons c cs)
  show ?case
    unfolding scan_children.simps Cons.IH name_abbrs_scan_child abbr_values_Cons
    by simp
qed

lemma names_loop_map: "names_loop abbrs ns acc = acc @ map (name_node abbrs) ns"
  by (induction ns arbitrary: acc) auto

lemma loc_nodes_Nil: "loc_nodes [] = []"
  by (simp add: loc_nodes_def)

lemma parents_loop_concat: "parents_loop ps acc = acc @ loc_nodes ps"
  by (induction ps arbitrary: acc) (auto simp: loc_nodes_def split: option.splits)

lemma filter_uid_kept:
  "filter (\<lambda>c. tag c = ''_UID'') (filter (\<lambda>c. tag c \<noteq> ''NAME'' \<and> tag c \<noteq> ''_LOC'' \<and> tag c \<noteq> ''CHAN'') cs)
     = filter (\<lambda>c. tag c = ''_UID'') cs"
  by (induction cs) auto

lemma filter_not_uid_kept:
  "filter (\<lambda>c. tag c \<noteq> ''_UID'') (filter (\<lambda>c. tag c \<noteq> ''NAME'' \<and> tag c \<noteq> ''_LOC'' \<and> tag c \<noteq> ''CHAN'') cs)
     = kept_part cs"
  by (induction cs) (auto simp: kept_part_def)

lemma new_children_eq:
  "(case parents y of
      Some ps \<Rightarrow> parents_loop ps (case names y of Some ns \<Rightarrow> names_loop a ns [] | None \<Rightarrow> [])
    | None \<Rightarrow> (case names y of Some ns \<Rightarrow> names_loop a ns [] | None \<Rightarrow> [])) =
   map (name_node a) (names_of y) @ loc_nodes (parents_of y)"
  by (cases "names y"; cases "parents y")
     (simp_all add: names_of_def parents_of_def names_loop_map parents_loop_concat loc_nodes_Nil)

lemma uid_nodes_eq:
  "filter (\<lambda>c. tag c = ''_UID'')
     (if \<not> has_uid (scan_children cs scan_init)
      then Node 1 ''_UID'' uid None [] # preserved_children (scan_children cs scan_init)
      else preserved_children (scan_children cs scan_init)) = uid_part uid cs"
  by (simp add: has_uid_scan_children preserved_scan_children scan_init_def filter_uid_kept
      uid_part_def del: filter_filter)

lemma other_preserved_eq:
  "filter (\<lambda>c. tag c \<noteq> ''_UID'')
     (if \<not> has_uid (scan_children cs scan_init)
      then Node 1 ''_UID'' uid None [] # preserved_children (scan_children cs scan_init)
      else preserved_children (scan_children cs scan_init)) = kept_part cs"
  by (simp add: preserved_scan_children scan_init_def filter_not_uid_kept del: filter_filter)

lemma chan_eq:
  "(case existing_chan (scan_children cs scan_init) of Some c \<Rightarrow> c | None \<Rightarrow> create_chan_node now)
     = chan_part now cs"
  by (simp add: existing_chan_scan_children scan_init_def chan_part_def)

lemma children_update_record:
  "children (update_record uid now r y) =
     uid_part uid (children r) @ [chan_part now (children r)] @ kept_part (children r) @
     map (name_node (abbrs_of (children r))) (names_of y) @ loc_nodes (parents_of y)"
  unfolding update_record_def Let_def node.sel uid_nodes_eq other_preserved_eq chan_eq
    new_children_eq abbrs_of_def ..

lemma tag_name_node: "tag (name_node a n) = ''NAME''"
  by (simp add: name_node_def)

lemma tag_loc_nodes: "c \<in> set (loc_nodes ps) \<Longrightarrow> tag c = ''_LOC''"
  by (auto simp: loc_nodes_def loc_node_def split: option.splits if_splits)

lemma tag_uid_part: "c \<in> set (uid_part uid cs) \<Longrightarrow> tag c = ''_UID''"
  by (auto simp: uid_part_def split: if_splits)

lemma uid_part_not_Nil: "uid_part uid cs \<noteq> []"
  by (simp add: uid_part_def)

lemma tag_chan_part: "tag (chan_part now cs) = ''CHAN''"
proof (cases "filter (\<lambda>c. tag c = ''CHAN'') cs = []")
  case True
  then show ?thesis by (simp add: chan_part_def create_chan_node_def)
next
  case False
  then have "last (filter (\<lambda>c. tag c = ''CHAN'') cs) \<in> set (filter (\<lambda>c. tag c = ''CHAN'') cs)"
    by (rule last_in_set)
  with False show ?thesis by (simp add: chan_part_def)
qed

lemma tag_kept_part:
  "c \<in> set (kept_part cs) \<Longrightarrow> tag c \<notin> {''NAME'', ''_LOC'', ''CHAN'', ''_UID''}"
  by (simp add: kept_part_def)

lemma filter_tag_all: "(\<And>c. c \<in> set cs \<Longrightarrow> tag c = t) \<Longrightarrow> filter (\<lambda>c. tag c = t) cs = cs"
  by (induction cs) auto

lemma filter_tag_none: "(\<And>c. c \<in> set cs \<Longrightarrow> tag c \<noteq> t) \<Longrightarrow> filter (\<lambda>c. tag c = t) cs = []"
  by (induction cs) auto

lemma abbr_values_append: "abbr_values k (xs @ ys) = abbr_values k xs @ abbr_values k ys"
  by (simp add: abbr_values_def)

lemma abbr_values_no_name: "(\<And>c. c \<in> set cs \<Longrightarrow> tag c \<noteq> ''NAME'') \<Longrightarrow> abbr_values k cs = []"
  by (induction cs) (auto simp: abbr_values_def)

lemma abbr_values_name_nodes:
  "abbr_values k (map (name_node a) ns) =
     (case a k of
        None \<Rightarrow> []
      | Some v \<Rightarrow> replicate (length (filter (\<lambda>n. name n = k) ns)) v)"
  by (induction ns) (auto simp: abbr_values_def name_node_def split: option.splits)

lemma abbrs_of_apply:
  "abbrs_of cs k = (if abbr_values k cs = [] then None else Some (last (abbr_values k cs)))"
  by (simp add: abbrs_of_def name_abbrs_scan_children scan_init_def)

lemma abbr_values_rebuilt:
  "abbr_values k (children (update_record uid now r y)) =
     abbr_values k (map (name_node (abbrs_of (children r))) (names_of y))"
proof -
  have "abbr_values k (uid_part uid (children r)) = []"
    by (rule abbr_values_no_name) (auto dest: tag_uid_part)
  moreover have "abbr_values k [chan_part now (children r)] = []"
    by (rule abbr_values_no_name) (simp add: tag_chan_part)
  moreover have "abbr_values k (kept_part (children r)) = []"
    by (rule abbr_values_no_name) (auto dest: tag_kept_part)
  moreover have "abbr_values k (loc_nodes (parents_of y)) = []"
    by (rule abbr_values_no_name) (auto dest: tag_loc_nodes)
  ultimately show ?thesis
    by (simp only: children_update_record abbr_values_append append_Nil append_Nil2)
qed

lemma abbrs_of_rebuilt:
  assumes "n \<in> set (names_of y)"
  shows "abbrs_of (children (update_record uid now r y)) (name n) = abbrs_of (children r) (name n)"
proof -
  from assms have "filter (\<lambda>m. name m = name n) (names_of y) \<noteq> []"
    by (auto simp: filter_empty_conv)
  then show ?thesis
    by (cases "abbrs_of (children r) (name n)")
       (simp_all add: abbrs_of_apply [of "children (update_record uid now r y)"]
          abbr_values_rebuilt abbr_values_name_nodes)
qed

lemma name_nodes_rebuilt:
  "map (name_node (abbrs_of (children (update_record uid now r y)))) (names_of y) =
   map (name_node (abbrs_of (children r))) (names_of y)"
  by (rule map_cong [OF refl]) (simp add: name_node_def abbrs_of_rebuilt)

lemma filter_tag_rebuilt:
  "filter (\<lambda>c. tag c = t) (children (update_record uid now r y)) =
     (if t = ''_UID'' then uid_part uid (children r)
      else if t = ''CHAN'' then [chan_part now (children r)]
      else if t = ''NAME'' then map (name_node (abbrs_of (children r))) (names_of y)
      else if t = ''_LOC'' then loc_nodes (parents_of y)
      else filter (\<lambda>c. tag c = t) (kept_part (children r)))"
proof -
  have u: "filter (\<lambda>c. tag c = t) (uid_part uid (children r)) =
             (if t = ''_UID'' then uid_part uid (children r) else [])"
    by (auto intro!: filter_tag_all filter_tag_none dest: tag_uid_part)
  have c: "filter (\<lambda>c. tag c = t) [chan_part now (children r)] =
             (if t = ''CHAN'' then [chan_part now (children r)] else [])"
    by (auto simp: tag_chan_part)
  have n: "filter (\<lambda>c. tag c = t) (map (name_node (abbrs_of (children r))) (names_of y)) =
             (if t = ''NAME'' then map (name_node (abbrs_of (children r))) (names_of y) else [])"
    by (auto intro!: filter_tag_all filter_tag_none simp: tag_name_node)
  have l: "filter (\<lambda>c. tag c = t) (loc_nodes (parents_of y)) =
             (if t = ''_LOC'' then loc_nodes (parents_of y) else [])"
    by (auto intro!: filter_tag_all filter_tag_none dest: tag_loc_nodes)
  have k: "t \<in> {''NAME'', ''_LOC'', ''CHAN'', ''_UID''} \<Longrightarrow>
             filter (\<lambda>c. tag c = t) (kept_part (children r)) = []"
    by (rule filter_tag_none) (auto dest: tag_kept_part)
  have d: "''_UID'' \<noteq> ''CHAN''" "''_UID'' \<noteq> ''NAME''" "''_UID'' \<noteq> ''_LOC''"
    "''CHAN'' \<noteq> ''NAME''" "''CHAN'' \<noteq> ''_LOC''" "''NAME'' \<noteq> ''_LOC''"
    by simp_all
  consider "t = ''_UID''" | "t = ''CHAN''" | "t = ''NAME''" | "t = ''_LOC''"
    | "t \<noteq> ''_UID''" "t \<noteq> ''CHAN''" "t \<noteq> ''NAME''" "t \<noteq> ''_LOC''"
    by blast
  then show ?thesis
  proof cases
    case 1
    with k d show ?thesis
      unfolding children_update_record filter_append u c n l by simp
  next
    case 2
    with k d show ?thesis
      unfolding children_update_record filter_append u c n l by simp
  next
    case 3
    with k d show ?thesis
      unfolding children_update_record filter_append u c n l by simp
  next
    case 4
    with k d show ?thesis
      unfolding children_update_record filter_append u c n l by simp
  next
    case 5
    then show ?thesis
      unfolding children_update_record filter_append u c n l by simp
  qed
qed

lemma kept_part_rebuilt:
  "kept_part (children (update_record uid now r y)) = kept_part (children r)"
proof -
  have k: "kept_part (xs @ ys) = kept_part xs @ kept_part ys" for xs ys
    by (simp add: kept_part_def)
  have e: "(\<And>c. c \<in> set cs \<Longrightarrow> tag c \<in> {''NAME'', ''_LOC'', ''CHAN'', ''_UID''}) \<Longrightarrow> kept_part cs = []" for cs
    by (induction cs) (auto simp: kept_part_def)
  have "kept_part (uid_part uid (children r)) = []"
    by (rule e) (auto dest: tag_uid_part)
  moreover have "kept_part [chan_part now (children r)] = []"
    by (rule e) (simp add: tag_chan_part)
  moreover have "kept_part (map (name_node (abbrs_of (children r))) (names_of y)) = []"
    by (rule e) (auto simp: tag_name_node)
  moreover have "kept_part (loc_nodes (parents_of y)) = []"
    by (rule e) (auto dest: tag_loc_nodes)
  moreover have "kept_part (kept_part (children r)) = kept_part (children r)"
    by (simp add: kept_part_def)
  ultimately show ?thesis
    by (simp only: children_update_record k append_Nil append_Nil2)
qed

text \<open>The segments of the merged children, written out.\<close>

lemma chan_part_segment: "chan_part now cs = chan_segment now cs"
  by (simp add: chan_part_def chan_segment_def create_chan_node_def)

lemma name_node_segment: "map (name_node (abbrs_of cs)) ns = name_segment cs ns"
  unfolding name_segment_def
  by (rule map_cong [OF refl]) (simp add: name_node_def abbrs_of_apply)

lemma loc_nodes_segment: "loc_nodes ps = link_segment ps"
  unfolding loc_nodes_def link_segment_def
  by (rule arg_cong [where f = concat], rule map_cong [OF refl])
     (simp add: loc_node_def split: option.splits)

section \<open>The orchestrator: counting trailer records\<close>

lemma count_tag_map: "count_tag t cs = length (filter (\<lambda>s. s = t) (map tag cs))"
  by (simp add: count_tag_def filter_map comp_def)

lemma tag_update_record: "tag (update_record uid now r y) = tag r"
  by (simp add: update_record_def Let_def)

lemma map_tag_update:
  "map tag (rs[k := update_record uid now (rs ! k) y]) = map tag rs"
proof (cases "k < length rs")
  case True
  then show ?thesis
    by (simp add: map_update tag_update_record list_update_same_conv)
next
  case False
  then have "rs[k := update_record uid now (rs ! k) y] = rs"
    by (simp add: list_update_beyond)
  then show ?thesis by simp
qed

lemma count_tag_merge_loop:
  "count_tag ''TRLR'' (fst (merge_loop uids clock i ys st)) = count_tag ''TRLR'' (fst st)"
proof (induction ys arbitrary: i st)
  case Nil
  show ?case by simp
next
  case (Cons p ys)
  obtain y_id y_item where p: "p = (y_id, y_item)" by (cases p)
  show ?case
  proof (cases "snd st y_id")
    case None
    have "count_tag ''TRLR'' (fst (merge_loop uids clock i (p # ys) st)) =
        count_tag ''TRLR'' (fst (merge_loop uids clock (Suc i) ys
          (fst st @ [create_new_record (uids i) (clock i) y_id y_item],
           (snd st)(y_id \<mapsto> length (fst st)))))"
      by (simp add: p None)
    also have "\<dots> = count_tag ''TRLR'' (fst st @ [create_new_record (uids i) (clock i) y_id y_item])"
      by (simp add: Cons.IH)
    also have "\<dots> = count_tag ''TRLR'' (fst st)"
      by (simp add: count_tag_def create_new_record_def tag_update_record)
    finally show ?thesis .
  next
    case (Some k)
    have "count_tag ''TRLR'' (fst (merge_loop uids clock i (p # ys) st)) =
        count_tag ''TRLR'' (fst (merge_loop uids clock (Suc i) ys
          ((fst st)[k := update_record (uids i) (clock i) (fst st ! k) y_item], snd st)))"
      by (simp add: p Some)
    also have "\<dots> = count_tag ''TRLR'' ((fst st)[k := update_record (uids i) (clock i) (fst st ! k) y_item])"
      by (simp add: Cons.IH)
    also have "\<dots> = count_tag ''TRLR'' (fst st)"
      by (simp only: count_tag_map map_tag_update)
    finally show ?thesis .
  qed
qed

lemma find_trlr_None: "find_trlr i rs = None \<Longrightarrow> count_tag ''TRLR'' rs = 0"
  by (induction rs arbitrary: i) (auto simp: count_tag_def split: if_splits)

lemma find_trlr_Some:
  "find_trlr i rs = Some j \<Longrightarrow> i \<le> j \<and> j - i < length rs \<and> tag (rs ! (j - i)) = ''TRLR''"
proof (induction rs arbitrary: i)
  case Nil
  then show ?case by simp
next
  case (Cons r rs)
  show ?case
  proof (cases "tag r = ''TRLR''")
    case True
    with Cons.prems show ?thesis by simp
  next
    case False
    with Cons.prems have "find_trlr (Suc i) rs = Some j" by simp
    from Cons.IH [OF this] have "Suc i \<le> j" "j - Suc i < length rs" "tag (rs ! (j - Suc i)) = ''TRLR''"
      by simp_all
    moreover from \<open>Suc i \<le> j\<close> have "j - i = Suc (j - Suc i)" by simp
    ultimately show ?thesis by simp
  qed
qed

lemma count_tag_append: "count_tag t (xs @ ys) = count_tag t xs + count_tag t ys"
  by (simp add: count_tag_def)

lemma move_trlr_props:
  "move_trlr rs \<noteq> [] \<and> tag (last (move_trlr rs)) = ''TRLR'' \<and>
   count_tag ''TRLR'' (move_trlr rs) = max 1 (count_tag ''TRLR'' rs)"
proof (cases "find_trlr 0 rs")
  case None
  then show ?thesis
    by (simp add: move_trlr_def count_tag_append find_trlr_None) (simp add: count_tag_def)
next
  case (Some i)
  from find_trlr_Some [OF this] have i: "i < length rs" "tag (rs ! i) = ''TRLR''"
    by simp_all
  have "rs = take i rs @ rs ! i # drop (Suc i) rs"
    using i(1) by (simp add: id_take_nth_drop [symmetric])
  then have "count_tag ''TRLR'' rs =
      count_tag ''TRLR'' (take i rs) + count_tag ''TRLR'' [rs ! i] + count_tag ''TRLR'' (drop (Suc i) rs)"
    by (metis append_Cons append_Nil count_tag_append add.assoc)
  moreover have "count_tag ''TRLR'' [rs ! i] = 1"
    using i(2) by (simp add: count_tag_def)
  ultimately show ?thesis
    using i(2) by (simp add: move_trlr_def Some count_tag_append)
qed

section \<open>The parser: single steps\<close>

lemma pop_stack_all: "\<forall>e\<in>set st. lev \<le> fst e \<Longrightarrow> pop_stack lev st = []"
  by (induction st) auto

section \<open>Integers and their decimal form\<close>

declare nat_digits.simps [simp del]

lemma digit_cases: "d < 10 \<Longrightarrow> d \<in> {0, 1, 2, 3, 4, 5, 6, 7, 8, 9::nat}"
  by auto

lemma digit_val_nth: "d < 10 \<Longrightarrow> digit_val (''0123456789'' ! d) = d"
  by (drule digit_cases) (auto simp: digit_val_def)

lemma is_digit_nth: "d < 10 \<Longrightarrow> is_digit (''0123456789'' ! d)"
  by (drule digit_cases) (auto simp: is_digit_def)

lemma int_digits_fold:
  "\<forall>c\<in>set ds. is_digit c \<Longrightarrow>
     int_digits ds acc = Some (fold (\<lambda>c a. 10 * a + digit_val c) ds acc)"
  by (induction ds arbitrary: acc) auto

lemma nat_digits_digits: "\<forall>c\<in>set (nat_digits n). is_digit c"
proof (induction n rule: nat_digits.induct)
  case (1 n)
  show ?case
  proof (cases "n < 10")
    case True
    then show ?thesis by (simp add: nat_digits.simps [of n] is_digit_nth)
  next
    case False
    with 1 show ?thesis by (simp add: nat_digits.simps [of n] is_digit_nth)
  qed
qed

lemma nat_digits_not_Nil: "nat_digits n \<noteq> []"
  by (simp add: nat_digits.simps [of n])

lemma fold_nat_digits: "fold (\<lambda>c a. 10 * a + digit_val c) (nat_digits n) 0 = n"
proof (induction n rule: nat_digits.induct)
  case (1 n)
  show ?case
  proof (cases "n < 10")
    case True
    then show ?thesis by (simp add: nat_digits.simps [of n] digit_val_nth)
  next
    case False
    with 1 show ?thesis by (simp add: nat_digits.simps [of n] digit_val_nth)
  qed
qed

lemma nat_of_string_nat_digits: "nat_of_string (nat_digits n) = Some n"
proof -
  obtain c cs where cs: "nat_digits n = c # cs"
    using nat_digits_not_Nil [of n] by (cases "nat_digits n") auto
  with nat_digits_digits [of n] have d: "is_digit c" "\<forall>c\<in>set cs. is_digit c" by auto
  have "fold (\<lambda>c a. 10 * a + digit_val c) cs (digit_val c) = n"
    using fold_nat_digits [of n] by (simp add: cs)
  with d show ?thesis
    by (simp add: nat_of_string_def cs int_digits_fold)
qed

lemma is_digit_props:
  "is_digit c \<Longrightarrow> \<not> is_space c \<and> \<not> is_int_space c \<and> c \<noteq> CHR '' '' \<and> c \<noteq> CHR 0x0A \<and> c \<noteq> CHR 0x0D
     \<and> c \<noteq> CHR ''-'' \<and> c \<noteq> CHR ''+''"
  by (auto simp: is_digit_def is_space_def is_int_space_def)

lemma py_str_chars: "c \<in> set (py_str i) \<Longrightarrow> c = CHR ''-'' \<or> is_digit c"
  using nat_digits_digits by (auto simp: py_str_def split: if_splits)

lemma py_str_not_Nil: "py_str i \<noteq> []"
  by (simp add: py_str_def nat_digits_not_Nil)

lemma py_str_char_props:
  assumes "c \<in> set (py_str i)"
  shows "\<not> is_space c" "\<not> is_int_space c" "c \<noteq> CHR '' ''" "c \<noteq> CHR 0x0A" "c \<noteq> CHR 0x0D"
proof -
  from py_str_chars [OF assms] have
    "\<not> is_space c \<and> \<not> is_int_space c \<and> c \<noteq> CHR '' '' \<and> c \<noteq> CHR 0x0A \<and> c \<noteq> CHR 0x0D"
  proof
    assume "c = CHR ''-''"
    then show ?thesis by (simp add: is_space_def is_int_space_def)
  next
    assume "is_digit c"
    then show ?thesis using is_digit_props [of c] by simp
  qed
  then show "\<not> is_space c" "\<not> is_int_space c" "c \<noteq> CHR '' ''" "c \<noteq> CHR 0x0A" "c \<noteq> CHR 0x0D"
    by simp_all
qed

lemma dropWhile_ends:
  assumes "s \<noteq> []" "\<not> P (hd s)" "\<not> P (last s)"
  shows "rev (dropWhile P (rev (dropWhile P s))) = s"
proof -
  from assms have "dropWhile P s = s" by (cases s) auto
  moreover from assms have "dropWhile P (rev s) = rev s"
    by (cases "rev s") (auto simp: hd_rev)
  ultimately show ?thesis by simp
qed

lemma py_int_py_str: "py_int (py_str i) = Some i"
proof -
  have ne: "py_str i \<noteq> []" by (rule py_str_not_Nil)
  then have "hd (py_str i) \<in> set (py_str i)" "last (py_str i) \<in> set (py_str i)" by simp_all
  then have "\<not> is_int_space (hd (py_str i))" "\<not> is_int_space (last (py_str i))"
    by (auto dest: py_str_char_props)
  with ne have e: "rev (dropWhile is_int_space (rev (dropWhile is_int_space (py_str i)))) = py_str i"
    by (rule dropWhile_ends)
  show ?thesis
  proof (cases "i < 0")
    case True
    then show ?thesis
      unfolding py_int_def e by (simp add: py_str_def nat_of_string_nat_digits)
  next
    case False
    obtain c cs where cs: "nat_digits (nat i) = c # cs"
      using nat_digits_not_Nil [of "nat i"] by (cases "nat_digits (nat i)") auto
    with nat_digits_digits [of "nat i"] have "is_digit c" by simp
    then have "c \<noteq> CHR ''-''" "c \<noteq> CHR ''+''" using is_digit_props by auto
    moreover have "nat_of_string (c # cs) = Some (nat i)"
      using nat_of_string_nat_digits [of "nat i"] by (simp add: cs)
    ultimately show ?thesis
      unfolding py_int_def e using False by (simp add: py_str_def cs)
  qed
qed

section \<open>Stripping and splitting\<close>

lemma strip_snoc_space:
  assumes "is_space c"
  shows "strip (s @ [c]) = strip s"
proof (cases "\<forall>x\<in>set s. is_space x")
  case True
  with assms have "dropWhile is_space (s @ [c]) = []" "dropWhile is_space s = []"
    by simp_all
  then show ?thesis by (simp only: strip_def)
next
  case False
  then have "dropWhile is_space (s @ [c]) = dropWhile is_space s @ [c]"
    by (simp add: dropWhile_append)
  with assms show ?thesis by (simp add: strip_def)
qed

lemma strip_ends: "s \<noteq> [] \<Longrightarrow> \<not> is_space (hd s) \<Longrightarrow> \<not> is_space (last s) \<Longrightarrow> strip s = s"
  unfolding strip_def by (rule dropWhile_ends)

lemma is_space_simps: "is_space (CHR 0x0A)" "is_space (CHR '' '')" "is_space (CHR 0x0D)"
  "\<not> is_space (CHR ''@'')"
  by (simp_all add: is_space_def)

lemma split_sp_nospace: "CHR '' '' \<notin> set s \<Longrightarrow> split_sp n s = [s]"
  by (cases n) simp_all

lemma split_sp_Suc:
  "CHR '' '' \<notin> set a \<Longrightarrow> split_sp (Suc n) (a @ CHR '' '' # b) = a # split_sp n b"
  by (simp add: takeWhile_append dropWhile_append takeWhile_eq_all_conv [THEN iffD2]
      dropWhile_eq_Nil_conv [THEN iffD2])

lemma py_str_nospace: "CHR '' '' \<notin> set (py_str i)"
  using py_str_char_props(3) by blast

lemma hd_py_str: "\<not> is_space (hd (py_str i @ s))"
proof -
  have "hd (py_str i @ s) = hd (py_str i)" by (simp add: py_str_not_Nil)
  moreover have "hd (py_str i) \<in> set (py_str i)" by (simp add: py_str_not_Nil)
  ultimately show ?thesis using py_str_char_props(1) by metis
qed

lemma endswith_at_last: "endswith_at s \<Longrightarrow> s \<noteq> [] \<and> last s = CHR ''@''"
proof -
  assume "endswith_at s"
  then obtain cs where "rev s = CHR ''@'' # cs"
    by (cases "rev s") (auto simp: endswith_at_def startswith_at_def)
  then have "s = rev cs @ [CHR ''@'']" by (simp add: rev_swap)
  then show ?thesis by simp
qed

section \<open>Reading a written line\<close>

lemma line_fields_fields_line:
  assumes "tok_wf f"
  shows "line_fields (fields_line f @ [CHR 0x0A]) = Inr (Some f)"
proof -
  obtain lev t v x where f: "f = (lev, t, v, x)" by (cases f)
  let ?L = "py_str lev"
  have L: "py_int ?L = Some lev" "CHR '' '' \<notin> set ?L" "?L \<noteq> []"
    by (simp_all add: py_int_py_str py_str_nospace py_str_not_Nil)
  have hd: "\<not> is_space (hd (?L @ s))" for s by (rule hd_py_str)
  from assms have t: "CHR '' '' \<notin> set t"
    and v: "v \<noteq> [] \<Longrightarrow> \<not> is_space (last v)"
    and tv: "v = [] \<Longrightarrow> t \<noteq> [] \<Longrightarrow> \<not> is_space (last t)"
    by (simp_all add: tok_wf_def f)
  show ?thesis
  proof (cases x)
    case None
    from assms None have nx: "\<not> (startswith_at t \<and> endswith_at t)" and tn: "v = [] \<Longrightarrow> t \<noteq> []"
      by (simp_all add: tok_wf_def f)
    show ?thesis
    proof (cases "v = []")
      case True
      let ?s = "?L @ CHR '' '' # t"
      have line: "fields_line f = ?s"
        by (simp add: fields_line_def f None True truthy_def)
      have "\<not> is_space (last ?s)" using tn tv True by simp
      with hd have "strip ?s = ?s" by (intro strip_ends) simp_all
      then have s: "strip (?s @ [CHR 0x0A]) = ?s"
        by (simp only: strip_snoc_space [OF is_space_simps(1)])
      have p: "split_sp 2 ?s = [?L, t]"
        using L(2) t by (simp add: numeral_2_eq_2 split_sp_Suc split_sp_nospace del: split_sp.simps(2))
      show ?thesis
        unfolding line line_fields_def s Let_def p using nx L by (simp add: f None True)
    next
      case False
      let ?s = "?L @ CHR '' '' # t @ CHR '' '' # v"
      have line: "fields_line f = ?s"
        by (simp add: fields_line_def f None False truthy_def)
      have "\<not> is_space (last ?s)" using v False by simp
      with hd have "strip ?s = ?s" by (intro strip_ends) simp_all
      then have s: "strip (?s @ [CHR 0x0A]) = ?s"
        by (simp only: strip_snoc_space [OF is_space_simps(1)])
      have p: "split_sp 2 ?s = [?L, t, v]"
        using L(2) t by (simp add: numeral_2_eq_2 split_sp_Suc del: split_sp.simps(2))
      show ?thesis
        unfolding line line_fields_def s Let_def p using nx L by (simp add: f None)
    qed
  next
    case (Some xr)
    from assms Some have xr: "startswith_at xr" "endswith_at xr" "CHR '' '' \<notin> set xr"
      by (simp_all add: tok_wf_def f)
    from xr(2) have xl: "xr \<noteq> []" "last xr = CHR ''@''"
      using endswith_at_last by auto
    have tr: "truthy x" by (simp add: Some truthy_def xl)
    show ?thesis
    proof (cases "v = []")
      case True
      show ?thesis
      proof (cases "t = []")
        case t0: True
        let ?s = "?L @ CHR '' '' # xr"
        have line: "fields_line f @ [CHR 0x0A] = (?s @ [CHR '' '']) @ [CHR 0x0A]"
          using tr by (simp add: fields_line_def f Some True t0)
        have "\<not> is_space (last ?s)" using xl by (simp add: is_space_simps)
        with hd have "strip ?s = ?s" by (intro strip_ends) simp_all
        then have s: "strip ((?s @ [CHR '' '']) @ [CHR 0x0A]) = ?s"
          by (simp only: strip_snoc_space [OF is_space_simps(1)] strip_snoc_space [OF is_space_simps(2)])
        have p: "split_sp 2 ?s = [?L, xr]"
          using L(2) xr(3) by (simp add: numeral_2_eq_2 split_sp_Suc split_sp_nospace del: split_sp.simps(2))
        show ?thesis
          unfolding line line_fields_def s Let_def p using xr L by (simp add: f Some True t0)
      next
        case t1: False
        let ?s = "?L @ CHR '' '' # xr @ CHR '' '' # t"
        have line: "fields_line f = ?s"
          using tr by (simp add: fields_line_def f Some True)
        have "\<not> is_space (last ?s)" using tv True t1 by simp
        with hd have "strip ?s = ?s" by (intro strip_ends) simp_all
        then have s: "strip (?s @ [CHR 0x0A]) = ?s"
          by (simp only: strip_snoc_space [OF is_space_simps(1)])
        have p: "split_sp 2 ?s = [?L, xr, t]"
          using L(2) xr(3) by (simp add: numeral_2_eq_2 split_sp_Suc del: split_sp.simps(2))
        have q: "split_sp (Suc 0) t = [t]"
          using t by (rule split_sp_nospace)
        show ?thesis
          unfolding line line_fields_def s Let_def p list.case using xr L
          by (simp add: f Some True q del: split_sp.simps(2))
      qed
    next
      case False
      let ?s = "?L @ CHR '' '' # xr @ CHR '' '' # t @ CHR '' '' # v"
      have line: "fields_line f = ?s"
        using tr by (simp add: fields_line_def f Some False)
      have "\<not> is_space (last ?s)" using v False by simp
      with hd have "strip ?s = ?s" by (intro strip_ends) simp_all
      then have s: "strip (?s @ [CHR 0x0A]) = ?s"
        by (simp only: strip_snoc_space [OF is_space_simps(1)])
      have p: "split_sp 2 ?s = [?L, xr, t @ CHR '' '' # v]"
        using L(2) xr(3) by (simp add: numeral_2_eq_2 split_sp_Suc del: split_sp.simps(2))
      have q: "split_sp (Suc 0) (t @ CHR '' '' # v) = [t, v]"
        using t by (simp add: split_sp_Suc del: split_sp.simps(2))
      show ?thesis
        unfolding line line_fields_def s Let_def p list.case using xr L
        by (simp add: f Some q del: split_sp.simps(2))
    qed
  qed
qed

section \<open>The fields read from a line\<close>

lemma set_strip: "set (strip s) \<subseteq> set s"
proof -
  have "set (strip s) \<subseteq> set (dropWhile is_space s)"
    unfolding strip_def set_rev using set_dropWhileD by fastforce
  also have "\<dots> \<subseteq> set s" using set_dropWhileD by fastforce
  finally show ?thesis .
qed

lemma last_dropWhile: "dropWhile P xs \<noteq> [] \<Longrightarrow> last (dropWhile P xs) = last xs"
  by (induction xs) (auto split: if_splits)

lemma strip_not_space:
  assumes "strip s \<noteq> []"
  shows "\<not> is_space (hd (strip s))" and "\<not> is_space (last (strip s))"
proof -
  let ?a = "dropWhile is_space s"
  let ?b = "dropWhile is_space (rev ?a)"
  from assms have b: "?b \<noteq> []" by (simp add: strip_def)
  have a: "?a \<noteq> []"
  proof
    assume "?a = []"
    then have "?b = []" by (simp del: dropWhile_eq_Nil_conv)
    with b show False ..
  qed
  from b have "\<not> is_space (hd ?b)" by (rule hd_dropWhile)
  with b show "\<not> is_space (last (strip s))" by (simp add: strip_def last_rev)
  from b have "last ?b = last (rev ?a)" by (rule last_dropWhile)
  also have "\<dots> = hd ?a" using a by (simp add: last_rev)
  finally have "hd (strip s) = hd ?a" using b by (simp add: strip_def hd_rev)
  moreover from a have "\<not> is_space (hd ?a)" by (rule hd_dropWhile)
  ultimately show "\<not> is_space (hd (strip s))" by simp
qed

lemma split_sp_cases:
  obtains (none) "CHR '' '' \<notin> set s" "split_sp (Suc n) s = [s]"
  | (some) a b where "s = a @ CHR '' '' # b" "CHR '' '' \<notin> set a" "split_sp (Suc n) s = a # split_sp n b"
proof (cases "CHR '' '' \<in> set s")
  case False
  then show ?thesis using none by simp
next
  case True
  then obtain a b where ab: "s = a @ CHR '' '' # b" "CHR '' '' \<notin> set a"
    by (auto dest: split_list_first)
  then have "split_sp (Suc n) s = a # split_sp n b"
    by (simp only: ab(1) split_sp_Suc [OF ab(2)])
  with ab show ?thesis using some by blast
qed

lemma clean_parts:
  "clean (a @ c # b) \<Longrightarrow> clean a \<and> clean b"
  by (auto simp: clean_def)

lemma tail_not_space:
  assumes "\<not> is_space (last (a @ CHR '' '' # b))"
  shows "b \<noteq> []" and "\<not> is_space (last b)"
proof -
  show "b \<noteq> []"
  proof
    assume "b = []"
    with assms show False by (simp add: is_space_simps)
  qed
  with assms show "\<not> is_space (last b)" by simp
qed

lemma line_fields_tok_wf:
  assumes lf: "line_fields line = Inr (Some f)"
    and cl: "clean (strip line)"
  shows "tok_wf f"
proof -
  let ?s = "strip line"
  from lf have ne: "?s \<noteq> []"
    by (auto simp: line_fields_def Let_def split: if_splits)
  then have ls: "\<not> is_space (last ?s)" by (rule strip_not_space)
  from lf ne have lf2:
    "(case split_sp (Suc (Suc 0)) ?s of
        [] \<Rightarrow> Inl IndexError
      | p0 # ps \<Rightarrow>
          (case py_int p0 of
             None \<Rightarrow> Inr None
           | Some lev \<Rightarrow>
               (case ps of
                  [] \<Rightarrow> Inl IndexError
                | p1 # ps2 \<Rightarrow>
                    if startswith_at p1 \<and> endswith_at p1 then
                      (case ps2 of
                         [] \<Rightarrow> Inr (Some (lev, '''', '''', Some p1))
                       | rest # _ \<Rightarrow>
                           (case split_sp 1 rest of
                              [] \<Rightarrow> Inl IndexError
                            | t # rest_parts \<Rightarrow>
                                Inr (Some (lev, t,
                                  (case rest_parts of [] \<Rightarrow> '''' | v # _ \<Rightarrow> v), Some p1))))
                    else
                      Inr (Some (lev, p1, (case ps2 of [] \<Rightarrow> '''' | p2 # _ \<Rightarrow> p2), None))))) = Inr (Some f)"
    by (simp add: line_fields_def Let_def numeral_2_eq_2 del: split_sp.simps(2))
  show ?thesis
  proof (cases rule: split_sp_cases [where s = ?s and n = "Suc 0"])
    case none
    with lf2 show ?thesis by (simp split: option.splits del: split_sp.simps(2))
  next
    case (some p0 r1)
    from ls some(1) have r1: "r1 \<noteq> []" "\<not> is_space (last r1)"
      using tail_not_space by metis+
    from cl some(1) have c1: "clean r1" using clean_parts by metis
    from lf2 some(3) obtain lev where lev: "py_int p0 = Some lev"
      by (auto split: option.splits simp del: split_sp.simps(2))
    show ?thesis
    proof (cases rule: split_sp_cases [where s = r1 and n = 0])
      case none
      then have "split_sp (Suc (Suc 0)) ?s = [p0, r1]" using some(3) by simp
      with lf2 lev have f: "f = (if startswith_at r1 \<and> endswith_at r1
          then (lev, '''', '''', Some r1) else (lev, r1, '''', None))"
        by (auto split: if_splits simp del: split_sp.simps(2))
      show ?thesis
        using r1 c1 none(1) by (simp add: f tok_wf_def clean_def)
    next
      case (some p1 r2)
      from r1(2) some(1) have r2: "r2 \<noteq> []" "\<not> is_space (last r2)"
        using tail_not_space by metis+
      from c1 some(1) have c2: "clean p1" "clean r2" using clean_parts by metis+
      have parts: "split_sp (Suc (Suc 0)) ?s = [p0, p1, r2]"
        using \<open>split_sp (Suc (Suc 0)) ?s = p0 # split_sp (Suc 0) r1\<close> some(3) by simp
      show ?thesis
      proof (cases "startswith_at p1 \<and> endswith_at p1")
        case False
        with lf2 lev parts have "f = (lev, p1, r2, None)"
          by (simp del: split_sp.simps(2))
        then show ?thesis
          using False r2 c2 some(2) by (simp add: tok_wf_def)
      next
        case True
        show ?thesis
        proof (cases rule: split_sp_cases [where s = r2 and n = 0])
          case none
          with lf2 lev parts True have "f = (lev, r2, '''', Some p1)"
            by (simp del: split_sp.simps(2))
          then show ?thesis
            using True r2 c2 none(1) \<open>CHR '' '' \<notin> set p1\<close> by (simp add: tok_wf_def clean_def)
        next
          case (some t v)
          from r2(2) some(1) have v: "v \<noteq> []" "\<not> is_space (last v)"
            using tail_not_space by metis+
          from c2(2) some(1) have c3: "clean t" "clean v" using clean_parts by metis+
          from lf2 lev parts True some(3) have "f = (lev, t, v, Some p1)"
            by (auto simp del: split_sp.simps(2))
          then show ?thesis
            using True v c2 c3 some(2) \<open>CHR '' '' \<notin> set p1\<close> by (simp add: tok_wf_def)
        qed
      qed
    qed
  qed
qed

section \<open>The lines of a written forest\<close>

lemma preorder_not_Nil: "preorder n \<noteq> []"
  by (cases n) simp

lemma join_Cons: "ys \<noteq> [] \<Longrightarrow> join sep (x # ys) = x @ sep @ join sep ys"
  by (cases ys) simp_all

lemma join_append:
  "xs \<noteq> [] \<Longrightarrow> ys \<noteq> [] \<Longrightarrow> join sep (xs @ ys) = join sep xs @ sep @ join sep ys"
proof (induction xs)
  case Nil
  then show ?case by simp
next
  case (Cons x xs)
  show ?case
  proof (cases "xs = []")
    case True
    with Cons.prems show ?thesis by (simp add: join_Cons)
  next
    case False
    with Cons show ?thesis by (simp add: join_Cons)
  qed
qed

lemma join_concat:
  "\<forall>xs\<in>set xss. xs \<noteq> [] \<Longrightarrow> join sep (map (join sep) xss) = join sep (concat xss)"
proof (induction xss)
  case Nil
  show ?case by simp
next
  case (Cons xs xss)
  show ?case
  proof (cases "xss = []")
    case True
    then show ?thesis by simp
  next
    case False
    with Cons.prems have c: "concat xss \<noteq> []" by (cases xss) auto
    from Cons.prems have x: "xs \<noteq> []" by simp
    have "join sep (map (join sep) (xs # xss)) = join sep xs @ sep @ join sep (map (join sep) xss)"
      using False by (simp add: join_Cons)
    also have "\<dots> = join sep xs @ sep @ join sep (concat xss)"
      using Cons by simp
    also have "\<dots> = join sep (xs @ concat xss)"
      using x c by (simp add: join_append)
    finally show ?thesis by simp
  qed
qed

lemma join_snoc_sep: "xs \<noteq> [] \<Longrightarrow> join sep xs @ sep = concat (map (\<lambda>l. l @ sep) xs)"
proof (induction xs)
  case Nil
  then show ?case by simp
next
  case (Cons x xs)
  then show ?case by (cases "xs = []") (simp_all add: join_Cons)
qed

lemma serialize_record_lines:
  "serialize_record n = join [CHR 0x0A] (map fields_line (preorder n))"
proof (induction n)
  case (Node lev t v x cs)
  let ?fl = "fields_line (lev, t, v, x)"
  have "serialize_record (Node lev t v x cs) =
          join [CHR 0x0A] (?fl # map serialize_record cs)"
    by (simp add: fields_line_def)
  also have "map serialize_record cs = map (\<lambda>c. join [CHR 0x0A] (map fields_line (preorder c))) cs"
    using Node.IH by simp
  also have "?fl # map (\<lambda>c. join [CHR 0x0A] (map fields_line (preorder c))) cs =
      map (join [CHR 0x0A]) ([?fl] # map (\<lambda>c. map fields_line (preorder c)) cs)"
    by (simp add: comp_def)
  also have "join [CHR 0x0A] \<dots> = join [CHR 0x0A] (concat ([?fl] # map (\<lambda>c. map fields_line (preorder c)) cs))"
    by (rule join_concat) (auto simp: preorder_not_Nil)
  also have "concat ([?fl] # map (\<lambda>c. map fields_line (preorder c)) cs) =
      map fields_line (preorder (Node lev t v x cs))"
    by (simp add: map_concat comp_def)
  finally show ?case .
qed

lemma write_records_lines:
  "write_records recs =
     concat (map (\<lambda>f. fields_line f @ [CHR 0x0A]) (concat (map preorder recs)))"
proof (induction recs)
  case Nil
  show ?case by (simp add: write_records_def)
next
  case (Cons r recs)
  have "serialize_record r @ [CHR 0x0A] = concat (map (\<lambda>f. fields_line f @ [CHR 0x0A]) (preorder r))"
    unfolding serialize_record_lines
    using join_snoc_sep [of "map fields_line (preorder r)" "[CHR 0x0A]"]
    by (simp add: preorder_not_Nil comp_def)
  with Cons show ?case by (simp add: write_records_def)
qed

lemma universal_newlines_id: "CHR 0x0D \<notin> set s \<Longrightarrow> universal_newlines s = s"
  by (induction s) auto

lemma cut_lines_line:
  "CHR 0x0A \<notin> set l \<Longrightarrow> cut_lines cur (l @ CHR 0x0A # rest) = (cur @ l @ [CHR 0x0A]) # cut_lines [] rest"
  by (induction l arbitrary: cur) auto

lemma cut_lines_lines:
  "\<forall>l\<in>set ls. CHR 0x0A \<notin> set l \<Longrightarrow>
     cut_lines [] (concat (map (\<lambda>l. l @ [CHR 0x0A]) ls)) = map (\<lambda>l. l @ [CHR 0x0A]) ls"
  by (induction ls) (simp_all add: cut_lines_line)

lemma set_join: "set (join sep xs) \<subseteq> set sep \<union> \<Union> (set ` set xs)"
  by (induction sep xs rule: join.induct) auto

lemma clean_py_str: "clean (py_str i)"
  using py_str_char_props(4,5) by (auto simp: clean_def)

lemma clean_fields_line:
  assumes "tok_wf f"
  shows "clean (fields_line f)"
proof -
  obtain lev t v x where f: "f = (lev, t, v, x)" by (cases f)
  from assms have c: "clean t" "clean v" "truthy x \<Longrightarrow> clean (the x)"
    by (auto simp: tok_wf_def f truthy_def split: option.splits)
  have "set (fields_line f) \<subseteq> set '' '' \<union> (set (py_str lev) \<union> (if truthy x then set (the x) else {}) \<union> set t \<union> set v)"
    unfolding fields_line_def f prod.case
    by (rule subset_trans [OF set_join]) auto
  with c clean_py_str [of lev] show ?thesis
    by (auto simp: clean_def split: if_splits)
qed

lemma readlines_write_records:
  assumes "\<forall>f\<in>set (concat (map preorder recs)). tok_wf f"
  shows "readlines (write_records recs) =
           map (\<lambda>f. fields_line f @ [CHR 0x0A]) (concat (map preorder recs))"
proof -
  let ?fs = "concat (map preorder recs)"
  let ?ls = "map fields_line ?fs"
  have w: "write_records recs = concat (map (\<lambda>l. l @ [CHR 0x0A]) ?ls)"
    by (simp add: write_records_lines comp_def)
  from assms have cl: "\<forall>l\<in>set ?ls. clean l"
    using clean_fields_line by auto
  then have "CHR 0x0D \<notin> set (write_records recs)"
    unfolding w by (auto simp: clean_def)
  then have "readlines (write_records recs) = cut_lines [] (concat (map (\<lambda>l. l @ [CHR 0x0A]) ?ls))"
    by (simp add: readlines_def universal_newlines_id w)
  also have "\<dots> = map (\<lambda>l. l @ [CHR 0x0A]) ?ls"
    by (rule cut_lines_lines) (use cl in \<open>auto simp: clean_def\<close>)
  finally show ?thesis by (simp add: comp_def)
qed

section \<open>The lines of a file\<close>

lemma universal_newlines_no_cr: "CHR 0x0D \<notin> set (universal_newlines s)"
  by (induction s rule: universal_newlines.induct) (auto split: list.splits)

lemma cut_lines_no_cr:
  "l \<in> set (cut_lines cur s) \<Longrightarrow> CHR 0x0D \<notin> set cur \<Longrightarrow> CHR 0x0D \<notin> set s \<Longrightarrow> CHR 0x0D \<notin> set l"
proof (induction s arbitrary: cur)
  case Nil
  then show ?case by (auto split: if_splits)
next
  case (Cons c cs)
  show ?case
  proof (cases "c = CHR 0x0A")
    case True
    with Cons.prems have "l = cur @ [CHR 0x0A] \<or> l \<in> set (cut_lines [] cs)" by simp
    then show ?thesis
    proof
      assume "l = cur @ [CHR 0x0A]"
      with Cons.prems(2) show ?thesis by simp
    next
      assume "l \<in> set (cut_lines [] cs)"
      then show ?thesis by (rule Cons.IH) (use Cons.prems(3) in simp_all)
    qed
  next
    case False
    with Cons.prems have "l \<in> set (cut_lines (cur @ [c]) cs)" by simp
    then show ?thesis by (rule Cons.IH) (use Cons.prems(2,3) in simp_all)
  qed
qed

lemma cut_lines_body:
  "l \<in> set (cut_lines cur s) \<Longrightarrow> CHR 0x0A \<notin> set cur \<Longrightarrow>
     \<exists>body. CHR 0x0A \<notin> set body \<and> (l = body @ [CHR 0x0A] \<or> l = body)"
proof (induction s arbitrary: cur)
  case Nil
  then show ?case by (auto split: if_splits)
next
  case (Cons c cs)
  show ?case
  proof (cases "c = CHR 0x0A")
    case True
    with Cons.prems have "l = cur @ [CHR 0x0A] \<or> l \<in> set (cut_lines [] cs)" by simp
    then show ?thesis
    proof
      assume "l = cur @ [CHR 0x0A]"
      with Cons.prems(2) show ?thesis by blast
    next
      assume "l \<in> set (cut_lines [] cs)"
      then show ?thesis by (rule Cons.IH) simp
    qed
  next
    case False
    with Cons.prems have "l \<in> set (cut_lines (cur @ [c]) cs)" by simp
    then show ?thesis by (rule Cons.IH) (use False Cons.prems(2) in simp)
  qed
qed

lemma readlines_clean:
  assumes "l \<in> set (readlines text)"
  shows "clean (strip l)"
proof -
  from assms have l: "l \<in> set (cut_lines [] (universal_newlines text))"
    by (simp add: readlines_def)
  then have cr: "CHR 0x0D \<notin> set l"
    by (rule cut_lines_no_cr) (simp_all add: universal_newlines_no_cr)
  from l obtain body where b: "CHR 0x0A \<notin> set body" "l = body @ [CHR 0x0A] \<or> l = body"
    using cut_lines_body by fastforce
  then have "strip l = strip body"
    by (auto simp: strip_snoc_space is_space_simps)
  then have "set (strip l) \<subseteq> set body" using set_strip by metis
  moreover from b(2) have "set body \<subseteq> set l" by auto
  ultimately show ?thesis using b(1) cr by (auto simp: clean_def)
qed

section \<open>The stack and the last children\<close>

lemma rspine_node_eq: "rspine_node n = rspine (children n) @ [(level n, [])]"
  by (cases n) (simp add: rspine_def last_map)

lemma rspine_snoc: "rspine (init @ [n]) = map (pre (length init)) (rspine (children n)) @ [(level n, [length init])]"
  by (simp add: rspine_def rspine_node_eq pre_def)

lemma rspine_Nil: "rspine [] = []"
  by (simp add: rspine_def)

lemma attach_node_eq:
  "attach_node c n =
     Node (level n) (tag n) (val n) (xref_id n)
       (if children n \<noteq> [] \<and> level (last (children n)) < level c
        then attach c (children n) else children n @ [c])"
  by (cases n) (simp add: attach_def last_map)

lemma attach_snoc: "attach c (init @ [n]) = init @ [attach_node c n]"
  by (simp add: attach_def)

lemma level_attach_node: "level (attach_node c n) = level n"
  by (simp add: attach_node_eq)

lemma pop_stack_map_pre: "pop_stack lev (map (pre k) s) = map (pre k) (pop_stack lev s)"
  by (induction s) (auto simp: pre_def)

lemma pop_stack_append:
  "pop_stack lev (a @ b) = (if pop_stack lev a = [] then pop_stack lev b else pop_stack lev a @ b)"
  by (induction a) auto

lemma rspine_levels:
  "node_wf n \<Longrightarrow> e \<in> set (rspine (children n)) \<Longrightarrow> level n < fst e"
proof (induction n arbitrary: e)
  case (Node lev t v x cs)
  from Node.prems(2) have ne: "cs \<noteq> []" by (auto simp: rspine_def)
  then have l: "last cs \<in> set cs" by simp
  with Node.prems(1) have w: "lev < level (last cs)" "node_wf (last cs)" by auto
  from Node.prems(2) ne obtain e' where e': "e' \<in> set (rspine_node (last cs))" "fst e = fst e'"
    by (auto simp: rspine_def pre_def)
  then have "e' \<in> set (rspine (children (last cs))) \<or> fst e' = level (last cs)"
    by (auto simp: rspine_node_eq)
  then show ?case
  proof
    assume "e' \<in> set (rspine (children (last cs)))"
    with Node.IH [OF l w(2)] have "level (last cs) < fst e'" .
    with w(1) e'(2) show ?thesis by simp
  next
    assume "fst e' = level (last cs)"
    with w(1) e'(2) show ?thesis by simp
  qed
qed

lemma rspine_levels_forest:
  assumes "rs \<noteq> []" "node_wf (last rs)" "e \<in> set (rspine rs)"
  shows "level (last rs) \<le> fst e"
proof -
  from assms(1) obtain init n where rs: "rs = init @ [n]" by (cases rs rule: rev_cases) auto
  with assms(3) have "e \<in> set (map (pre (length init)) (rspine (children n))) \<or> fst e = level n"
    by (auto simp: rspine_snoc)
  then show ?thesis
  proof
    assume "e \<in> set (map (pre (length init)) (rspine (children n)))"
    then obtain e' where "e' \<in> set (rspine (children n))" "fst e = fst e'" by (auto simp: pre_def)
    with rspine_levels [of n e'] assms(2) show ?thesis by (simp add: rs)
  next
    assume "fst e = level n"
    then show ?thesis by (simp add: rs)
  qed
qed

section \<open>One step of the parser on a well-formed forest\<close>

lemma append_child_snoc:
  "append_child (length init # r) c (init @ [n]) =
     init @ [Node (level n) (tag n) (val n) (xref_id n)
               (if r = [] then children n @ [c] else append_child r c (children n))]"
  by simp

lemma children_at_snoc:
  "children_at (length init # r) (init @ [n]) =
     (if r = [] then children n else children_at r (children n))"
  by simp

lemma rspine_leaf: "rspine (cs @ [Node lev t v x []]) = [(lev, [length cs])]"
  by (simp add: rspine_snoc rspine_Nil)

lemma attach_step:
  assumes "node_wf n" and "level n < lev"
  shows "\<exists>l r rest. pop_stack lev (rspine (init @ [n])) = (l, r) # rest \<and> r \<noteq> [] \<and>
           append_child r (Node lev t v x []) (init @ [n]) = attach (Node lev t v x []) (init @ [n]) \<and>
           rspine (attach (Node lev t v x []) (init @ [n])) =
             (lev, r @ [length (children_at r (init @ [n]))]) # (l, r) # rest"
  using assms
proof (induction n arbitrary: init)
  case (Node l tg vl xr cs)
  let ?c = "Node lev t v x []"
  let ?n = "Node l tg vl xr cs"
  let ?k = "length init"
  have low: "pop_stack lev [(l, [?k])] = [(l, [?k])]"
    using Node.prems(2) by simp
  show ?case
  proof (cases "cs \<noteq> [] \<and> level (last cs) < lev")
    case False
    have "pop_stack lev (rspine cs) = []"
    proof (cases "cs = []")
      case True
      then show ?thesis by (simp add: rspine_Nil)
    next
      case ne: False
      then have "last cs \<in> set cs" by simp
      with Node.prems(1) have "node_wf (last cs)" by simp
      with ne have "\<forall>e\<in>set (rspine cs). level (last cs) \<le> fst e"
        using rspine_levels_forest by blast
      with False ne have "\<forall>e\<in>set (rspine cs). lev \<le> fst e" by fastforce
      then show ?thesis by (rule pop_stack_all)
    qed
    then have p: "pop_stack lev (rspine (init @ [?n])) = [(l, [?k])]"
      using low by (simp add: rspine_snoc pop_stack_append pop_stack_map_pre)
    have a: "attach ?c (init @ [?n]) = init @ [Node l tg vl xr (cs @ [?c])]"
      using False by (auto simp: attach_snoc attach_node_eq)
    have "append_child [?k] ?c (init @ [?n]) = attach ?c (init @ [?n])"
      unfolding a append_child_snoc by simp
    moreover have "rspine (attach ?c (init @ [?n])) =
        (lev, [?k] @ [length (children_at [?k] (init @ [?n]))]) # (l, [?k]) # []"
      unfolding a rspine_snoc children_at_snoc by (simp add: rspine_leaf pre_def)
    ultimately show ?thesis using p by blast
  next
    case True
    then have ne: "cs \<noteq> []" and lt: "level (last cs) < lev" by simp_all
    from ne have cs: "cs = butlast cs @ [last cs]" by simp
    from ne have mem: "last cs \<in> set cs" by simp
    with Node.prems(1) have wf: "node_wf (last cs)" by simp
    from Node.IH [OF mem wf lt, of "butlast cs"] cs
    obtain l' r' rest' where ih:
      "pop_stack lev (rspine cs) = (l', r') # rest'" "r' \<noteq> []"
      "append_child r' ?c cs = attach ?c cs"
      "rspine (attach ?c cs) = (lev, r' @ [length (children_at r' cs)]) # (l', r') # rest'"
      by auto
    let ?r = "?k # r'"
    let ?rest = "map (pre ?k) rest' @ [(l, [?k])]"
    have p: "pop_stack lev (rspine (init @ [?n])) = (l', ?r) # ?rest"
      by (simp add: rspine_snoc pop_stack_append pop_stack_map_pre ih(1) pre_def)
    have a: "attach ?c (init @ [?n]) = init @ [Node l tg vl xr (attach ?c cs)]"
      using True by (simp add: attach_snoc attach_node_eq)
    have "append_child ?r ?c (init @ [?n]) = attach ?c (init @ [?n])"
      unfolding a append_child_snoc using ih(2,3) by simp
    moreover have "rspine (attach ?c (init @ [?n])) =
        (lev, ?r @ [length (children_at ?r (init @ [?n]))]) # (l', ?r) # ?rest"
      unfolding a rspine_snoc children_at_snoc using ih(2) by (simp add: ih(4) pre_def)
    ultimately show ?thesis using p by blast
  qed
qed

lemma node_wf_attach_node:
  assumes "node_wf n" and "level n < level c" and "node_wf c"
  shows "node_wf (attach_node c n)"
  using assms
proof (induction n)
  case (Node l tg vl xr cs)
  show ?case
  proof (cases "cs \<noteq> [] \<and> level (last cs) < level c")
    case True
    then have ne: "cs \<noteq> []" and lt: "level (last cs) < level c" by simp_all
    from ne have mem: "last cs \<in> set cs" by simp
    with Node.prems(1) have wl: "node_wf (last cs)" "l < level (last cs)" by auto
    have w: "node_wf (attach_node c (last cs))"
      using Node.IH [OF mem wl(1) lt Node.prems(3)] .
    let ?cs' = "butlast cs @ [attach_node c (last cs)]"
    have lv: "map level ?cs' = map level cs"
    proof -
      have "map level ?cs' = map level (butlast cs @ [last cs])"
        by (simp add: level_attach_node)
      with ne show ?thesis by simp
    qed
    have s: "sorted_wrt (\<lambda>a b. level b \<le> level a) ?cs'"
    proof -
      have "sorted_wrt (\<lambda>a b. b \<le> a) (map level ?cs')"
        unfolding lv using Node.prems(1) by (simp add: sorted_wrt_map)
      then show ?thesis by (simp only: sorted_wrt_map)
    qed
    have "\<forall>d\<in>set ?cs'. l < level d \<and> node_wf d"
    proof
      fix d assume "d \<in> set ?cs'"
      then have "d \<in> set (butlast cs) \<or> d = attach_node c (last cs)" by auto
      then show "l < level d \<and> node_wf d"
      proof
        assume "d \<in> set (butlast cs)"
        then have "d \<in> set cs" by (rule in_set_butlastD)
        with Node.prems(1) show ?thesis by simp
      next
        assume "d = attach_node c (last cs)"
        with w wl(2) show ?thesis by (simp add: level_attach_node)
      qed
    qed
    with s Node.prems(1) True show ?thesis
      by (simp add: last_map)
  next
    case False
    have "\<forall>a\<in>set cs. level c \<le> level a"
    proof
      fix a assume a: "a \<in> set cs"
      then have ne: "cs \<noteq> []" by auto
      with False have le: "level c \<le> level (last cs)" by simp
      from ne have cs: "cs = butlast cs @ [last cs]" by simp
      from Node.prems(1) have "sorted_wrt (\<lambda>a b. level b \<le> level a) (butlast cs @ [last cs])"
        using cs by simp
      then have "\<forall>a\<in>set (butlast cs). level (last cs) \<le> level a"
        by (simp add: sorted_wrt_append)
      moreover from a cs have "a \<in> set (butlast cs) \<or> a = last cs"
        by (metis Un_iff insert_iff list.set(2) set_append empty_iff empty_set)
      ultimately show "level c \<le> level a" using le by auto
    qed
    with Node.prems False show ?thesis
      by (auto simp: sorted_wrt_append)
  qed
qed

section \<open>The invariant of the parser\<close>

lemma fields_attach_node: "fields (attach_node c n) = fields n"
  by (simp add: fields_def attach_node_eq)

lemma forest_wf_snoc:
  "forest_wf (init @ [n]) = (forest_wf init \<and> level n = 0 \<and> node_wf n \<and> \<not> is_garbage (fields n))"
  by (auto simp: forest_wf_def)

lemma add_node_garbage: "is_garbage f \<Longrightarrow> add_node f st = st"
  by (cases f) (simp add: add_node_def is_garbage_def)

lemma add_node_record:
  "\<not> is_garbage (0, t, v, x) \<Longrightarrow>
   add_node (0, t, v, x) st =
     \<lparr>all_records = all_records st @ [Node 0 t v x []],
      id_map = (if t = ''_LOC'' \<and> truthy x
                then (id_map st)(strip_at (the x) \<mapsto> length (all_records st)) else id_map st),
      stack = [(0, [length (all_records st)])]\<rparr>"
  by (auto simp: add_node_def is_garbage_def)

lemma add_node_child:
  "lev \<noteq> 0 \<Longrightarrow>
   add_node (lev, t, v, x) st =
     (case pop_stack lev (stack st) of
        [] \<Rightarrow> st\<lparr>stack := []\<rparr>
      | (l, r) # rest \<Rightarrow>
          \<lparr>all_records = append_child r (Node lev t v x []) (all_records st),
           id_map = id_map st,
           stack = (lev, r @ [length (children_at r (all_records st))]) # (l, r) # rest\<rparr>)"
  by (simp add: add_node_def)

lemma add_node_attach:
  assumes "0 < lev" and "forest_wf rs" and "rs \<noteq> []" and "stack st = rspine rs"
    and "all_records st = rs"
  shows "all_records (add_node (lev, t, v, x) st) = attach (Node lev t v x []) rs \<and>
         stack (add_node (lev, t, v, x) st) = rspine (attach (Node lev t v x []) rs) \<and>
         id_map (add_node (lev, t, v, x) st) = id_map st"
proof -
  from assms(3) obtain init n where rs: "rs = init @ [n]" by (cases rs rule: rev_cases) auto
  with assms(2) have n: "level n = 0" "node_wf n" by (simp_all add: forest_wf_snoc)
  with assms(1) have "level n < lev" by simp
  from attach_step [OF n(2) this, of init t v x] obtain l r rest where
    s: "pop_stack lev (rspine rs) = (l, r) # rest"
       "append_child r (Node lev t v x []) rs = attach (Node lev t v x []) rs"
       "rspine (attach (Node lev t v x []) rs) = (lev, r @ [length (children_at r rs)]) # (l, r) # rest"
    unfolding rs by blast
  from assms(1) have "lev \<noteq> 0" by simp
  then show ?thesis
    by (simp add: add_node_child assms(4,5) s)
qed

lemma add_node_inv:
  assumes "tok_wf f" and "parse_inv st"
  shows "parse_inv (add_node f st)"
proof -
  obtain lev t v x where f: "f = (lev, t, v, x)" by (cases f)
  let ?rs = "all_records st"
  from assms(2) have wf: "forest_wf ?rs" and st: "stack st = [] \<or> stack st = rspine ?rs"
    by (simp_all add: parse_inv_def)
  show ?thesis
  proof (cases "is_garbage f")
    case True
    with assms(2) show ?thesis by (simp add: add_node_garbage)
  next
    case ng: False
    show ?thesis
    proof (cases "lev = 0")
      case True
      with ng f have g: "\<not> is_garbage (0, t, v, x)" by simp
      have "forest_wf (?rs @ [Node 0 t v x []])"
        using wf g assms(1) by (simp add: forest_wf_snoc fields_def f True)
      then show ?thesis
        by (simp add: f True add_node_record [OF g] parse_inv_def rspine_leaf)
    next
      case nz: False
      show ?thesis
      proof (cases "stack st = [] \<or> ?rs = []")
        case True
        with st have "stack st = []" by (auto simp: rspine_Nil)
        with wf show ?thesis
          by (simp add: f add_node_child [OF nz] parse_inv_def)
      next
        case False
        with st have s: "stack st = rspine ?rs" and ne: "?rs \<noteq> []" by simp_all
        from ne obtain init n where rs: "?rs = init @ [n]" by (cases ?rs rule: rev_cases) auto
        with wf have n: "level n = 0" "node_wf n" "\<not> is_garbage (fields n)" "forest_wf init"
          by (simp_all add: forest_wf_snoc)
        show ?thesis
        proof (cases "0 < lev")
          case True
          let ?c = "Node lev t v x []"
          from add_node_attach [OF True wf ne s refl, of t v x]
          have a: "all_records (add_node f st) = attach ?c ?rs"
            "stack (add_node f st) = rspine (attach ?c ?rs)"
            by (simp_all add: f)
          have "node_wf (attach_node ?c n)"
            using n(2) by (rule node_wf_attach_node) (use True n(1) assms(1) in \<open>simp_all add: f\<close>)
          then have "forest_wf (attach ?c ?rs)"
            using n by (simp add: rs attach_snoc forest_wf_snoc level_attach_node fields_attach_node)
          with a show ?thesis by (simp add: parse_inv_def)
        next
          case False
          with nz have neg: "lev < 0" by simp
          have "\<forall>e\<in>set (rspine ?rs). lev \<le> fst e"
          proof
            fix e assume "e \<in> set (rspine ?rs)"
            with ne n(2) rs have "level (last ?rs) \<le> fst e"
              using rspine_levels_forest [of ?rs e] by simp
            with neg n(1) rs show "lev \<le> fst e" by simp
          qed
          then have "pop_stack lev (stack st) = []"
            unfolding s by (rule pop_stack_all)
          with wf show ?thesis
            by (simp add: f add_node_child [OF nz] parse_inv_def)
        qed
      qed
    qed
  qed
qed

lemma parse_init_inv: "parse_inv parse_init"
  by (simp add: parse_inv_def parse_init_def forest_wf_def)

lemma parse_lines_inv:
  assumes "parse_lines ls st = Inr st'"
    and "\<forall>l\<in>set ls. clean (strip l)"
    and "parse_inv st"
  shows "parse_inv st'"
  using assms
proof (induction ls arbitrary: st)
  case Nil
  then show ?case by simp
next
  case (Cons l ls)
  from Cons.prems(1) obtain st1 where st1: "parse_line l st = Inr st1" "parse_lines ls st1 = Inr st'"
    by (auto split: sum.splits)
  have "parse_inv st1"
  proof (cases "line_fields l")
    case (Inl e)
    with st1(1) show ?thesis by (simp add: parse_line_def)
  next
    case (Inr fo)
    show ?thesis
    proof (cases fo)
      case None
      with Inr st1(1) Cons.prems(3) show ?thesis by (simp add: parse_line_def)
    next
      case (Some f)
      with Inr have "tok_wf f"
        using line_fields_tok_wf Cons.prems(2) by simp
      then have "parse_inv (add_node f st)"
        using Cons.prems(3) by (rule add_node_inv)
      with Inr Some st1(1) show ?thesis by (simp add: parse_line_def)
    qed
  qed
  with Cons.IH [OF st1(2)] Cons.prems(2) show ?case by simp
qed

lemma parse_gedcom_lines_wf:
  assumes "parse_gedcom_lines (readlines text) = Inr (recs, m)"
  shows "forest_wf recs"
proof -
  from assms obtain st where st: "parse_lines (readlines text) parse_init = Inr st"
    "all_records st = recs"
    by (auto simp: parse_gedcom_lines_def split: sum.splits)
  from st(1) have "parse_inv st"
    by (rule parse_lines_inv) (simp_all add: readlines_clean parse_init_inv)
  with st(2) show ?thesis by (simp add: parse_inv_def)
qed

section \<open>Removing the node written last\<close>

lemma last_leaf_eq:
  "last_leaf n = (if children n = [] then n else last_leaf (last (children n)))"
  by (cases n) (simp add: last_map)

lemma remove_leaf_eq:
  "remove_leaf n =
     Node (level n) (tag n) (val n) (xref_id n)
       (if children n = [] then [] else remove_last (children n))"
  by (cases n) (simp add: last_map remove_last_def)

lemma level_remove_leaf: "level (remove_leaf n) = level n"
  by (simp add: remove_leaf_eq)

lemma fields_remove_leaf: "fields (remove_leaf n) = fields n"
  by (simp add: remove_leaf_eq fields_def)

lemma preorder_eq: "preorder n = fields n # concat (map preorder (children n))"
  by (cases n) (simp add: fields_def)

lemma children_last_leaf: "children (last_leaf n) = []"
proof (induction n)
  case (Node lev t v x cs)
  show ?case
  proof (cases "cs = []")
    case True
    then show ?thesis by simp
  next
    case False
    then have "last cs \<in> set cs" by simp
    from Node.IH [OF this] False show ?thesis by (simp add: last_map)
  qed
qed

lemma preorder_remove_leaf:
  "children n \<noteq> [] \<Longrightarrow> preorder n = preorder (remove_leaf n) @ [fields (last_leaf n)]"
proof (induction n)
  case (Node lev t v x cs)
  then have ne: "cs \<noteq> []" by simp
  then have mem: "last cs \<in> set cs" by simp
  from ne have cs: "cs = butlast cs @ [last cs]" by simp
  have p: "preorder (Node lev t v x cs) =
      (lev, t, v, x) # concat (map preorder (butlast cs)) @ preorder (last cs)"
    by (subst cs) simp
  have ll: "last_leaf (Node lev t v x cs) = last_leaf (last cs)"
    using ne by (simp add: last_map)
  show ?case
  proof (cases "children (last cs) = []")
    case True
    then have "preorder (last cs) = [fields (last cs)]" "last_leaf (last cs) = last cs"
      by (simp_all add: preorder_eq [of "last cs"] last_leaf_eq [of "last cs"])
    with True ne show ?thesis
      unfolding p ll by simp
  next
    case False
    from Node.IH [OF mem False]
    have "preorder (last cs) = preorder (remove_leaf (last cs)) @ [fields (last_leaf (last cs))]" .
    with False ne show ?thesis
      unfolding p ll by (simp add: last_map)
  qed
qed

lemma preorder_remove_last:
  assumes "rs \<noteq> []"
  shows "concat (map preorder rs) =
           concat (map preorder (remove_last rs)) @ [fields (last_leaf (last rs))]"
proof -
  from assms have rs: "rs = butlast rs @ [last rs]" by simp
  have p: "concat (map preorder rs) = concat (map preorder (butlast rs)) @ preorder (last rs)"
    by (subst rs) simp
  show ?thesis
  proof (cases "children (last rs) = []")
    case True
    then show ?thesis
      unfolding p by (simp add: remove_last_def preorder_eq [of "last rs"] last_leaf_eq [of "last rs"])
  next
    case False
    then show ?thesis
      unfolding p by (simp add: remove_last_def preorder_remove_leaf)
  qed
qed

lemma sorted_wrt_butlast: "sorted_wrt P xs \<Longrightarrow> sorted_wrt P (butlast xs)"
proof (cases "xs = []")
  case True
  then show ?thesis by simp
next
  case False
  assume "sorted_wrt P xs"
  moreover from False have "xs = butlast xs @ [last xs]" by simp
  ultimately have "sorted_wrt P (butlast xs @ [last xs])" by simp
  then show ?thesis by (simp add: sorted_wrt_append)
qed

lemma node_wf_remove_leaf: "node_wf n \<Longrightarrow> node_wf (remove_leaf n)"
proof (induction n)
  case (Node lev t v x cs)
  show ?case
  proof (cases "cs = []")
    case True
    with Node.prems show ?thesis by simp
  next
    case ne: False
    then have mem: "last cs \<in> set cs" by simp
    from Node.prems have b: "\<forall>c\<in>set (butlast cs). lev < level c \<and> node_wf c"
      by (auto dest: in_set_butlastD)
    from Node.prems have sb: "sorted_wrt (\<lambda>a b. level b \<le> level a) (butlast cs)"
      by (simp add: sorted_wrt_butlast)
    show ?thesis
    proof (cases "children (last cs) = []")
      case True
      with ne b sb Node.prems show ?thesis by simp
    next
      case False
      from Node.prems mem have wl: "node_wf (last cs)" "lev < level (last cs)" by auto
      from Node.IH [OF mem wl(1)] have w: "node_wf (remove_leaf (last cs))" .
      let ?cs' = "butlast cs @ [remove_leaf (last cs)]"
      have "map level ?cs' = map level (butlast cs @ [last cs])"
        by (simp add: level_remove_leaf)
      with ne have lv: "map level ?cs' = map level cs" by simp
      have "sorted_wrt (\<lambda>a b. b \<le> a) (map level ?cs')"
        unfolding lv using Node.prems by (simp add: sorted_wrt_map)
      then have s: "sorted_wrt (\<lambda>a b. level b \<le> level a) ?cs'"
        by (simp only: sorted_wrt_map)
      have "\<forall>d\<in>set ?cs'. lev < level d \<and> node_wf d"
        using b w wl(2) by (auto simp: level_remove_leaf)
      with s Node.prems ne False show ?thesis
        by (simp add: last_map)
    qed
  qed
qed

lemma forest_wf_remove_last: "forest_wf rs \<Longrightarrow> rs \<noteq> [] \<Longrightarrow> forest_wf (remove_last rs)"
proof -
  assume wf: "forest_wf rs" and ne: "rs \<noteq> []"
  then have rs: "rs = butlast rs @ [last rs]" by simp
  from wf have "forest_wf (butlast rs @ [last rs])" using rs by simp
  then have "forest_wf (butlast rs)" "level (last rs) = 0" "node_wf (last rs)"
    "\<not> is_garbage (fields (last rs))"
    by (simp_all add: forest_wf_snoc)
  then show ?thesis
    by (simp add: remove_last_def forest_wf_snoc node_wf_remove_leaf level_remove_leaf
        fields_remove_leaf)
qed

lemma level_last_leaf: "node_wf n \<Longrightarrow> children n \<noteq> [] \<Longrightarrow> level n < level (last_leaf n)"
proof (induction n)
  case (Node lev t v x cs)
  then have ne: "cs \<noteq> []" by simp
  then have mem: "last cs \<in> set cs" by simp
  with Node.prems(1) have wl: "node_wf (last cs)" "lev < level (last cs)" by auto
  show ?case
  proof (cases "children (last cs) = []")
    case True
    with ne wl(2) show ?thesis by (simp add: last_map last_leaf_eq [of "last cs"])
  next
    case False
    from Node.IH [OF mem wl(1) False] wl(2) ne show ?thesis by (simp add: last_map)
  qed
qed

lemma attach_remove_leaf:
  "node_wf n \<Longrightarrow> children n \<noteq> [] \<Longrightarrow> attach_node (last_leaf n) (remove_leaf n) = n"
proof (induction n)
  case (Node lev t v x cs)
  then have ne: "cs \<noteq> []" by simp
  then have mem: "last cs \<in> set cs" by simp
  from ne have cs: "butlast cs @ [last cs] = cs" by simp
  from Node.prems(1) mem have wl: "node_wf (last cs)" "lev < level (last cs)" by auto
  have ll: "last_leaf (Node lev t v x cs) = last_leaf (last cs)"
    using ne by (simp add: last_map)
  show ?case
  proof (cases "children (last cs) = []")
    case True
    then have l: "last_leaf (last cs) = last cs" by (simp add: last_leaf_eq [of "last cs"])
    have "butlast cs \<noteq> [] \<Longrightarrow> level (last cs) \<le> level (last (butlast cs))"
    proof -
      assume b: "butlast cs \<noteq> []"
      from Node.prems(1) have "sorted_wrt (\<lambda>a b. level b \<le> level a) (butlast cs @ [last cs])"
        using cs by simp
      then have "\<forall>a\<in>set (butlast cs). level (last cs) \<le> level a"
        by (simp add: sorted_wrt_append)
      with b show ?thesis by simp
    qed
    then have "\<not> (butlast cs \<noteq> [] \<and> level (last (butlast cs)) < level (last cs))"
      by auto
    with True ne cs show ?thesis
      unfolding ll l by (auto simp: attach_node_eq)
  next
    case False
    from Node.IH [OF mem wl(1) False]
    have ih: "attach_node (last_leaf (last cs)) (remove_leaf (last cs)) = last cs" .
    from level_last_leaf [OF wl(1) False]
    have "level (last cs) < level (last_leaf (last cs))" .
    with False ne cs ih show ?thesis
      unfolding ll
      by (simp add: attach_node_eq [of _ "Node lev t v x _"] last_map attach_def level_remove_leaf)
  qed
qed

section \<open>Parsing a written forest\<close>

lemma leaf_eq: "children n = [] \<Longrightarrow> n = Node (level n) (tag n) (val n) (xref_id n) []"
  by (cases n) simp

lemma rebuild:
  assumes "forest_wf rs"
  shows "all_records (fold add_node (concat (map preorder rs)) parse_init) = rs \<and>
         stack (fold add_node (concat (map preorder rs)) parse_init) = rspine rs"
  using assms
proof (induction "length (concat (map preorder rs))" arbitrary: rs rule: less_induct)
  case less
  show ?case
  proof (cases "rs = []")
    case True
    then show ?thesis by (simp add: parse_init_def rspine_Nil)
  next
    case ne: False
    let ?rs' = "remove_last rs"
    let ?leaf = "last_leaf (last rs)"
    let ?st' = "fold add_node (concat (map preorder ?rs')) parse_init"
    have p: "concat (map preorder rs) = concat (map preorder ?rs') @ [fields ?leaf]"
      using ne by (rule preorder_remove_last)
    have wf': "forest_wf ?rs'"
      using less.prems ne by (rule forest_wf_remove_last)
    have "length (concat (map preorder ?rs')) < length (concat (map preorder rs))"
      by (subst p) simp
    from less.hyps [OF this wf'] have ih: "all_records ?st' = ?rs'" "stack ?st' = rspine ?rs'"
      by simp_all
    have f: "fold add_node (concat (map preorder rs)) parse_init = add_node (fields ?leaf) ?st'"
      by (subst p) simp
    from ne have rs: "butlast rs @ [last rs] = rs" by simp
    from less.prems have "forest_wf (butlast rs @ [last rs])" using rs by simp
    then have n: "level (last rs) = 0" "node_wf (last rs)" "\<not> is_garbage (fields (last rs))"
      by (simp_all add: forest_wf_snoc)
    show ?thesis
    proof (cases "children (last rs) = []")
      case True
      then have leaf: "?leaf = last rs" by (simp add: last_leaf_eq [of "last rs"])
      from True have r': "?rs' = butlast rs" by (simp add: remove_last_def)
      from True n(1) have l: "last rs = Node 0 (tag (last rs)) (val (last rs)) (xref_id (last rs)) []"
        using leaf_eq [of "last rs"] by simp
      have fl: "fields (last rs) = (0, tag (last rs), val (last rs), xref_id (last rs))"
        using n(1) by (simp add: fields_def)
      from n(3) have g: "\<not> is_garbage (0, tag (last rs), val (last rs), xref_id (last rs))"
        by (simp add: fl)
      have "all_records (add_node (fields (last rs)) ?st') = butlast rs @ [last rs]"
        unfolding fl add_node_record [OF g] using l ih(1) r' by simp
      moreover have "stack (add_node (fields (last rs)) ?st') = rspine (butlast rs @ [last rs])"
        unfolding fl add_node_record [OF g] using ih(1) r'
        by (subst l) (simp add: rspine_leaf)
      ultimately show ?thesis
        unfolding f leaf by (simp add: rs)
    next
      case False
      then have r': "?rs' = butlast rs @ [remove_leaf (last rs)]" by (simp add: remove_last_def)
      then have ne': "?rs' \<noteq> []" by simp
      from level_last_leaf [OF n(2) False] n(1) have pos: "0 < level ?leaf" by simp
      have leaf: "?leaf = Node (level ?leaf) (tag ?leaf) (val ?leaf) (xref_id ?leaf) []"
        by (rule leaf_eq) (rule children_last_leaf)
      have fl: "fields ?leaf = (level ?leaf, tag ?leaf, val ?leaf, xref_id ?leaf)"
        by (simp add: fields_def)
      from add_node_attach [OF pos wf' ne' ih(2) ih(1), of "tag ?leaf" "val ?leaf" "xref_id ?leaf"]
      have a: "all_records (add_node (fields ?leaf) ?st') = attach ?leaf ?rs'"
        "stack (add_node (fields ?leaf) ?st') = rspine (attach ?leaf ?rs')"
        unfolding fl using leaf by simp_all
      have "attach ?leaf ?rs' = butlast rs @ [attach_node ?leaf (remove_leaf (last rs))]"
        unfolding r' by (rule attach_snoc)
      also have "\<dots> = rs"
        using attach_remove_leaf [OF n(2) False] rs by simp
      finally show ?thesis
        unfolding f using a by simp
    qed
  qed
qed

lemma tok_wf_preorder: "node_wf n \<Longrightarrow> f \<in> set (preorder n) \<Longrightarrow> tok_wf f"
  by (induction n arbitrary: f) auto

lemma tok_wf_forest:
  "forest_wf rs \<Longrightarrow> \<forall>f\<in>set (concat (map preorder rs)). tok_wf f"
  by (auto simp: forest_wf_def dest: tok_wf_preorder)

lemma parse_lines_fields:
  "\<forall>f\<in>set fs. tok_wf f \<Longrightarrow>
     parse_lines (map (\<lambda>f. fields_line f @ [CHR 0x0A]) fs) st = Inr (fold add_node fs st)"
  by (induction fs arbitrary: st) (simp_all add: parse_line_def line_fields_fields_line)

lemma reparse:
  assumes "forest_wf recs"
  shows "\<exists>m'. parse_gedcom_lines (readlines (write_records recs)) = Inr (recs, m')"
proof -
  let ?fs = "concat (map preorder recs)"
  have t: "\<forall>f\<in>set ?fs. tok_wf f"
    using assms by (rule tok_wf_forest)
  then have "readlines (write_records recs) = map (\<lambda>f. fields_line f @ [CHR 0x0A]) ?fs"
    by (rule readlines_write_records)
  then have "parse_lines (readlines (write_records recs)) parse_init =
      Inr (fold add_node ?fs parse_init)"
    using parse_lines_fields [OF t] by simp
  with rebuild [OF assms] show ?thesis
    by (simp add: parse_gedcom_lines_def)
qed

section \<open>The identifier index\<close>

lemma index_keys_snoc:
  "index_keys i (ks @ [k]) m =
     (case k of None \<Rightarrow> index_keys i ks m | Some key \<Rightarrow> (index_keys i ks m)(key \<mapsto> i + length ks))"
  by (induction ks arbitrary: i m) (simp_all split: option.splits)

lemma id_index_snoc:
  "id_index (rs @ [n]) =
     (case id_key n of None \<Rightarrow> id_index rs | Some key \<Rightarrow> (id_index rs)(key \<mapsto> length rs))"
  by (cases "id_key n") (simp_all add: id_index_def index_keys_snoc)

lemma id_key_append_child: "map id_key (append_child r c rs) = map id_key rs"
proof (cases r)
  case Nil
  then show ?thesis by simp
next
  case (Cons i p)
  show ?thesis
  proof (cases "i < length rs")
    case True
    then show ?thesis
      by (simp add: Cons map_update id_key_def list_update_same_conv)
  next
    case False
    then show ?thesis by (simp add: Cons)
  qed
qed

lemma add_node_id_index:
  assumes "id_map st = id_index (all_records st)"
  shows "id_map (add_node f st) = id_index (all_records (add_node f st))"
proof -
  obtain lev t v x where f: "f = (lev, t, v, x)" by (cases f)
  show ?thesis
  proof (cases "is_garbage f")
    case True
    with assms show ?thesis by (simp add: add_node_garbage)
  next
    case ng: False
    show ?thesis
    proof (cases "lev = 0")
      case True
      with ng f have g: "\<not> is_garbage (0, t, v, x)" by simp
      show ?thesis
        unfolding f True add_node_record [OF g]
        by (simp add: id_index_snoc id_key_def assms)
    next
      case False
      show ?thesis
      proof (cases "pop_stack lev (stack st)")
        case Nil
        with assms show ?thesis by (simp add: f add_node_child [OF False])
      next
        case (Cons e rest)
        obtain l r where e: "e = (l, r)" by (cases e)
        have "id_index (append_child r (Node lev t v x []) (all_records st)) = id_index (all_records st)"
          by (simp add: id_index_def id_key_append_child)
        with assms show ?thesis
          by (simp add: f add_node_child [OF False] Cons e)
      qed
    qed
  qed
qed

lemma fold_add_node_id_index:
  "id_map st = id_index (all_records st) \<Longrightarrow>
   id_map (fold add_node fs st) = id_index (all_records (fold add_node fs st))"
  by (induction fs arbitrary: st) (simp_all add: add_node_id_index)

lemma parse_lines_id_index:
  "parse_lines ls st = Inr st' \<Longrightarrow> id_map st = id_index (all_records st) \<Longrightarrow>
   id_map st' = id_index (all_records st')"
proof (induction ls arbitrary: st)
  case Nil
  then show ?case by simp
next
  case (Cons l ls)
  from Cons.prems(1) obtain st1 where st1: "parse_line l st = Inr st1" "parse_lines ls st1 = Inr st'"
    by (auto split: sum.splits)
  from st1(1) Cons.prems(2) have "id_map st1 = id_index (all_records st1)"
    by (auto simp: parse_line_def add_node_id_index split: sum.splits option.splits)
  with Cons.IH [OF st1(2)] show ?case .
qed

lemma parse_init_id_index: "id_map parse_init = id_index (all_records parse_init)"
  by (simp add: parse_init_def id_index_def)

lemma parse_gedcom_lines_id_index:
  assumes "parse_gedcom_lines ls = Inr (recs, m)"
  shows "m = id_index recs"
proof -
  from assms obtain st where st: "parse_lines ls parse_init = Inr st"
    "all_records st = recs" "id_map st = m"
    by (auto simp: parse_gedcom_lines_def split: sum.splits)
  from parse_lines_id_index [OF st(1) parse_init_id_index] st(2,3) show ?thesis by simp
qed

section \<open>The entries of the identifier index are records\<close>

text \<open>
  The model reads a record through the index with \<open>!\<close>. The index that the parser
  returns and every index of the loop of \<^verbatim>\<open>main\<close> hold positions of the list of
  records only, so no such read is out of range.
\<close>

lemma index_keys_bound:
  "index_keys i ks m k = Some j \<Longrightarrow> m k = Some j \<or> (i \<le> j \<and> j < i + length ks)"
proof (induction ks arbitrary: i m)
  case Nil
  then show ?case by simp
next
  case (Cons a ks)
  let ?m = "case a of None \<Rightarrow> m | Some key \<Rightarrow> m(key \<mapsto> i)"
  from Cons.prems have "index_keys (Suc i) ks ?m k = Some j" by simp
  from Cons.IH [OF this] have "?m k = Some j \<or> (Suc i \<le> j \<and> j < Suc i + length ks)" .
  then show ?case
  proof
    assume "?m k = Some j"
    then have "m k = Some j \<or> j = i" by (cases a) (auto split: if_splits)
    then show ?thesis by auto
  next
    assume "Suc i \<le> j \<and> j < Suc i + length ks"
    then show ?thesis by simp
  qed
qed

lemma id_index_bound: "id_index rs k = Some j \<Longrightarrow> j < length rs"
  using index_keys_bound [of 0 "map id_key rs" Map.empty k j] by (simp add: id_index_def)

lemma parse_gedcom_index_valid:
  assumes "parse_gedcom file = Inr (recs, m)" and "m k = Some j"
  shows "j < length recs"
proof (cases "file")
  case None
  with assms show ?thesis by (auto simp: parse_gedcom_def)
next
  case (Some content)
  with assms(1) have "parse_gedcom_lines (readlines content) = Inr (recs, m)"
    by (simp add: parse_gedcom_def)
  then have "m = id_index recs" by (rule parse_gedcom_lines_id_index)
  with assms(2) show ?thesis by (simp add: id_index_bound)
qed

lemma merge_loop_index_valid:
  assumes "\<And>k j. snd st k = Some j \<Longrightarrow> j < length (fst st)"
    and "snd (merge_loop uids clock i ys st) k = Some j"
  shows "j < length (fst (merge_loop uids clock i ys st))"
  using assms
proof (induction ys arbitrary: i st)
  case Nil
  then show ?case by simp
next
  case (Cons p ys)
  obtain y_id y_item where p: "p = (y_id, y_item)" by (cases p)
  let ?st' = "case snd st y_id of
      Some k \<Rightarrow> ((fst st)[k := update_record (uids i) (clock i) (fst st ! k) y_item], snd st)
    | None \<Rightarrow> (fst st @ [create_new_record (uids i) (clock i) y_id y_item],
               (snd st)(y_id \<mapsto> length (fst st)))"
  have v: "j' < length (fst ?st')" if "snd ?st' k' = Some j'" for k' j'
  proof (cases "snd st y_id")
    case None
    with that have "j' = length (fst st) \<or> snd st k' = Some j'"
      by (auto split: if_splits)
    with None Cons.prems(1) [of k' j'] show ?thesis by auto
  next
    case (Some a)
    with that Cons.prems(1) [of k' j'] show ?thesis by simp
  qed
  from Cons.prems(2) have "snd (merge_loop uids clock (Suc i) ys ?st') k = Some j"
    by (simp add: p)
  from Cons.IH [OF v this] show ?case by (simp add: p)
qed

section \<open>Claims about the merger\<close>

lemmas merge_eval =
  update_record_def Let_def scan_child_def scan_init_def name_node_def loc_node_def
  create_chan_node_def count_tag_def abbr_values_def names_of_def parents_of_def

text \<open>
  Claim C1. Merging is idempotent: a second call of \<^verbatim>\<open>update_record\<close> with the same
  external record leaves the node exactly as the first call left it, whatever identifier
  and time the second call would draw. The change-metadata node and the unique-id node of
  the first call are carried over, and nothing else in the children differs.
\<close>

theorem update_record_idempotent:
  "update_record uid2 now2 (update_record uid1 now1 r y) y = update_record uid1 now1 r y"
proof -
  let ?r1 = "update_record uid1 now1 r y"
  have f: "level ?r1 = level r" "tag ?r1 = tag r" "val ?r1 = val r" "xref_id ?r1 = xref_id r"
    by (simp_all add: update_record_def Let_def)
  have u: "uid_part uid2 (children ?r1) = uid_part uid1 (children r)"
    using uid_part_not_Nil [of uid1 "children r"]
    by (simp add: uid_part_def [of uid2] filter_tag_rebuilt)
  have c: "chan_part now2 (children ?r1) = chan_part now1 (children r)"
    by (simp add: chan_part_def [of now2] filter_tag_rebuilt)
  have "children (update_record uid2 now2 ?r1 y) =
          uid_part uid2 (children ?r1) @ [chan_part now2 (children ?r1)] @ kept_part (children ?r1) @
          map (name_node (abbrs_of (children ?r1))) (names_of y) @ loc_nodes (parents_of y)"
    by (rule children_update_record)
  also have "\<dots> =
          uid_part uid1 (children r) @ [chan_part now1 (children r)] @ kept_part (children r) @
          map (name_node (abbrs_of (children r))) (names_of y) @ loc_nodes (parents_of y)"
    by (simp only: u c kept_part_rebuilt name_nodes_rebuilt)
  also have "\<dots> = children ?r1"
    by (rule children_update_record [symmetric])
  finally have "children (update_record uid2 now2 ?r1 y) = children ?r1" .
  moreover have "level (update_record uid2 now2 ?r1 y) = level ?r1"
    "tag (update_record uid2 now2 ?r1 y) = tag ?r1"
    "val (update_record uid2 now2 ?r1 y) = val ?r1"
    "xref_id (update_record uid2 now2 ?r1 y) = xref_id ?r1"
    by (simp_all add: update_record_def Let_def)
  ultimately show ?thesis
    by (simp add: node.expand)
qed

theorem update_record_idempotent_witness:
  "update_record ''B2'' (''02 FEB 2025'', ''08:00:00.0'')
     (update_record ''A1'' (''01 JAN 2024'', ''12:30:00.5'')
        (Node 0 ''_LOC'' '''' (Some ''@L1@'')
           [Node 1 ''NAME'' ''Springfield'' None [Node 2 ''ABBR'' ''SPR'' None []],
            Node 1 ''NOTE'' ''kept'' None []])
        (YamlItem (Some [NameEntry ''Springfield'' (Some ''1900-1950'')])
                  (Some [ParentEntry (Some ''L0'') None])))
     (YamlItem (Some [NameEntry ''Springfield'' (Some ''1900-1950'')])
               (Some [ParentEntry (Some ''L0'') None])) =
   Node 0 ''_LOC'' '''' (Some ''@L1@'')
     [Node 1 ''_UID'' ''A1'' None [],
      Node 1 ''CHAN'' '''' None
        [Node 2 ''DATE'' ''01 JAN 2024'' None [Node 3 ''TIME'' ''12:30:00.5'' None []]],
      Node 1 ''NOTE'' ''kept'' None [],
      Node 1 ''NAME'' ''Springfield'' None
        [Node 2 ''ABBR'' ''SPR'' None [], Node 2 ''DATE'' ''1900-1950'' None []],
      Node 1 ''_LOC'' ''@L0@'' None []]"
  unfolding update_record_idempotent by (simp add: merge_eval)

text \<open>
  Claim C3, as the code has it. After \<^verbatim>\<open>update_record\<close> the children hold exactly one
  CHAN node, however many there were before. Every _UID child that was there before is
  kept, and one is generated when there was none: the number of _UID children is the
  number before, or one if that was zero.
\<close>

theorem uid_chan_counts:
  "count_tag ''CHAN'' (children (update_record uid now r y)) = 1 \<and>
   count_tag ''_UID'' (children (update_record uid now r y)) =
     max 1 (count_tag ''_UID'' (children r))"
proof -
  have "filter (\<lambda>c. tag c = ''_UID'') (uid_part uid (children r)) = uid_part uid (children r)"
    by (rule filter_tag_all) (rule tag_uid_part)
  then show ?thesis
    unfolding count_tag_def filter_tag_rebuilt
    by (auto simp: uid_part_def max_def Suc_le_eq split: if_splits)
qed

theorem uid_chan_counts_witness:
  "count_tag ''CHAN'' (children (update_record ''A1'' (''01 JAN 2024'', ''12:30:00.5'')
      (Node 0 ''_LOC'' '''' (Some ''@L1@'')
         [Node 1 ''CHAN'' '''' None [], Node 1 ''_UID'' ''77'' None [], Node 1 ''CHAN'' ''x'' None []])
      (YamlItem None None))) = 1 \<and>
   count_tag ''_UID'' (children (update_record ''A1'' (''01 JAN 2024'', ''12:30:00.5'')
      (Node 0 ''_LOC'' '''' (Some ''@L1@'')
         [Node 1 ''CHAN'' '''' None [], Node 1 ''_UID'' ''77'' None [], Node 1 ''CHAN'' ''x'' None []])
      (YamlItem None None))) = 1"
  using uid_chan_counts [of "''A1''" "(''01 JAN 2024'', ''12:30:00.5'')"
      "Node 0 ''_LOC'' '''' (Some ''@L1@'')
         [Node 1 ''CHAN'' '''' None [], Node 1 ''_UID'' ''77'' None [], Node 1 ''CHAN'' ''x'' None []]"
      "YamlItem None None"]
  by (simp add: count_tag_def)

text \<open>
  Claim C3 as stated fails: a record with two _UID children has both of them after the
  merge.
\<close>

theorem two_uid_children_counterexample:
  "count_tag ''_UID'' (children (update_record ''A1'' (''01 JAN 2024'', ''12:30:00.5'')
      (Node 0 ''_LOC'' '''' (Some ''@L1@'')
         [Node 1 ''_UID'' ''77'' None [], Node 1 ''_UID'' ''88'' None []])
      (YamlItem None None))) = 2"
  by (simp add: merge_eval)

text \<open>
  Claim C5. The children of a merged record are, in this order: the unique-id nodes (the
  _UID children of the record, or one generated node \<^verbatim>\<open>1 _UID uid\<close> if it had none),
  one change-metadata node (the last CHAN child of the record if it had one, else a new
  node \<^verbatim>\<open>1 CHAN\<close> with the sub-node \<^verbatim>\<open>2 DATE\<close> and below it \<^verbatim>\<open>3 TIME\<close>), the
  children of the record whose tag is none of NAME, _LOC, CHAN, _UID, unchanged and in
  their order, a NAME node for every name of the external record in its order, and a _LOC
  node for every parent of the external record that has an identifier, in its order.
  Every segment is written out in the statement.
\<close>

theorem update_record_children_order:
  "children (update_record uid now r y) =
     uid_part uid (children r) @ [chan_segment now (children r)] @ kept_part (children r) @
     name_segment (children r) (names_of y) @ link_segment (parents_of y)"
proof -
  have "children (update_record uid now r y) =
      uid_part uid (children r) @ [chan_part now (children r)] @ kept_part (children r) @
      map (name_node (abbrs_of (children r))) (names_of y) @ loc_nodes (parents_of y)"
    by (rule children_update_record)
  also have "chan_part now (children r) = chan_segment now (children r)"
    by (rule chan_part_segment)
  also have "map (name_node (abbrs_of (children r))) (names_of y) =
      name_segment (children r) (names_of y)"
    by (rule name_node_segment)
  also have "loc_nodes (parents_of y) = link_segment (parents_of y)"
    by (rule loc_nodes_segment)
  finally show ?thesis .
qed

theorem update_record_children_order_witness:
  "children (update_record ''A1'' (''01 JAN 2024'', ''12:30:00.5'')
      (Node 0 ''_LOC'' '''' (Some ''@L1@'')
         [Node 1 ''NOTE'' ''n1'' None [Node 2 ''CONT'' ''more'' None []],
          Node 1 ''NAME'' ''New'' None [Node 2 ''ABBR'' ''N'' None []],
          Node 1 ''_LOC'' ''@L9@'' None [],
          Node 1 ''MAP'' '''' None []])
      (YamlItem (Some [NameEntry ''New'' None, NameEntry ''Newer'' (Some ''1950-'')])
                (Some [ParentEntry (Some ''L0'') (Some ''1900''), ParentEntry None None,
                       ParentEntry (Some '''') None, ParentEntry (Some ''L2'') None]))) =
   [Node 1 ''_UID'' ''A1'' None [],
    Node 1 ''CHAN'' '''' None
      [Node 2 ''DATE'' ''01 JAN 2024'' None [Node 3 ''TIME'' ''12:30:00.5'' None []]],
    Node 1 ''NOTE'' ''n1'' None [Node 2 ''CONT'' ''more'' None []],
    Node 1 ''MAP'' '''' None [],
    Node 1 ''NAME'' ''New'' None [Node 2 ''ABBR'' ''N'' None []],
    Node 1 ''NAME'' ''Newer'' None [Node 2 ''DATE'' ''1950-'' None []],
    Node 1 ''_LOC'' ''@L0@'' None [Node 2 ''DATE'' ''1900'' None []],
    Node 1 ''_LOC'' ''@L2@'' None []] \<and>
   children (update_record ''A1'' (''01 JAN 2024'', ''12:30:00.5'')
      (Node 0 ''_LOC'' '''' (Some ''@L1@'')
         [Node 1 ''CHAN'' ''c0'' None [],
          Node 1 ''SOUR'' ''s'' None [],
          Node 1 ''_UID'' ''77'' None [],
          Node 1 ''CHAN'' ''c1'' None [Node 2 ''DATE'' ''02 FEB 2020'' None []],
          Node 1 ''_UID'' ''88'' None []])
      (YamlItem None None)) =
   [Node 1 ''_UID'' ''77'' None [],
    Node 1 ''_UID'' ''88'' None [],
    Node 1 ''CHAN'' ''c1'' None [Node 2 ''DATE'' ''02 FEB 2020'' None []],
    Node 1 ''SOUR'' ''s'' None []]"
  unfolding update_record_children_order
  by (simp add: uid_part_def chan_segment_def kept_part_def name_segment_def link_segment_def
      abbr_values_def names_of_def parents_of_def)

text \<open>
  Claim C7, as the code has it. The abbreviations are collected in a dictionary keyed by
  the name, so the last ABBR sub-node under the NAME children with that value is the one
  kept. If that one is \<open>a\<close> and the external record has an entry with the name, the
  rebuilt NAME node of the entry starts with an ABBR sub-node valued \<open>a\<close>, and no
  rebuilt NAME node with that value has another abbreviation.
\<close>

theorem abbr_carry_over:
  assumes "abbr_values k (children r) \<noteq> []"
    and "last (abbr_values k (children r)) = a"
    and "n \<in> set (names_of y)"
    and "name n = k"
  shows "Node 1 ''NAME'' k None
           (Node 2 ''ABBR'' a None [] #
            (case period n of None \<Rightarrow> [] | Some p \<Rightarrow> [Node 2 ''DATE'' p None []]))
           \<in> set (children (update_record uid now r y)) \<and>
         set (abbr_values k (children (update_record uid now r y))) = {a}"
proof -
  from assms(1,2) have a: "abbrs_of (children r) k = Some a"
    by (simp add: abbrs_of_apply)
  with assms(4) have "name_node (abbrs_of (children r)) n =
      Node 1 ''NAME'' k None
        (Node 2 ''ABBR'' a None [] #
         (case period n of None \<Rightarrow> [] | Some p \<Rightarrow> [Node 2 ''DATE'' p None []]))"
    by (simp add: name_node_def)
  moreover from assms(3) have "name_node (abbrs_of (children r)) n
      \<in> set (children (update_record uid now r y))"
    by (simp add: children_update_record)
  moreover from assms(3,4) have "filter (\<lambda>m. name m = k) (names_of y) \<noteq> []"
    by (auto simp: filter_empty_conv)
  then have "set (abbr_values k (children (update_record uid now r y))) = {a}"
    by (simp add: abbr_values_rebuilt abbr_values_name_nodes a)
  ultimately show ?thesis by simp
qed

theorem abbr_carry_over_witness:
  "Node 1 ''NAME'' ''Springfield'' None [Node 2 ''ABBR'' ''SPR'' None []]
     \<in> set (children (update_record ''A1'' (''01 JAN 2024'', ''12:30:00.5'')
          (Node 0 ''_LOC'' '''' (Some ''@L1@'')
             [Node 1 ''NAME'' ''Springfield'' None [Node 2 ''ABBR'' ''SPR'' None []]])
          (YamlItem (Some [NameEntry ''Springfield'' None]) None))) \<and>
   set (abbr_values ''Springfield'' (children (update_record ''A1'' (''01 JAN 2024'', ''12:30:00.5'')
          (Node 0 ''_LOC'' '''' (Some ''@L1@'')
             [Node 1 ''NAME'' ''Springfield'' None [Node 2 ''ABBR'' ''SPR'' None []]])
          (YamlItem (Some [NameEntry ''Springfield'' None]) None)))) = {''SPR''}"
  using abbr_carry_over [of "''Springfield''"
      "Node 0 ''_LOC'' '''' (Some ''@L1@'')
         [Node 1 ''NAME'' ''Springfield'' None [Node 2 ''ABBR'' ''SPR'' None []]]"
      "''SPR''" "NameEntry ''Springfield'' None"
      "YamlItem (Some [NameEntry ''Springfield'' None]) None"
      "''A1''" "(''01 JAN 2024'', ''12:30:00.5'')"]
  by (simp add: abbr_values_def names_of_def)

text \<open>
  Claim C7 as stated fails: the NAME child valued Springfield carries an ABBR sub-node
  valued SPR and a later one valued SP; the rebuilt NAME node carries SP only.
\<close>

theorem abbr_last_wins_counterexample:
  "''SPR'' \<in> set (abbr_values ''Springfield'' (children
      (Node 0 ''_LOC'' '''' (Some ''@L1@'')
         [Node 1 ''NAME'' ''Springfield'' None
            [Node 2 ''ABBR'' ''SPR'' None [], Node 2 ''ABBR'' ''SP'' None []]]))) \<and>
   NameEntry ''Springfield'' None
     \<in> set (names_of (YamlItem (Some [NameEntry ''Springfield'' None]) None)) \<and>
   children (update_record ''A1'' (''01 JAN 2024'', ''12:30:00.5'')
      (Node 0 ''_LOC'' '''' (Some ''@L1@'')
         [Node 1 ''NAME'' ''Springfield'' None
            [Node 2 ''ABBR'' ''SPR'' None [], Node 2 ''ABBR'' ''SP'' None []]])
      (YamlItem (Some [NameEntry ''Springfield'' None]) None)) =
     [Node 1 ''_UID'' ''A1'' None [],
      Node 1 ''CHAN'' '''' None
        [Node 2 ''DATE'' ''01 JAN 2024'' None [Node 3 ''TIME'' ''12:30:00.5'' None []]],
      Node 1 ''NAME'' ''Springfield'' None [Node 2 ''ABBR'' ''SP'' None []]] \<and>
   ''SPR'' \<notin> set (abbr_values ''Springfield'' (children (update_record ''A1'' (''01 JAN 2024'', ''12:30:00.5'')
      (Node 0 ''_LOC'' '''' (Some ''@L1@'')
         [Node 1 ''NAME'' ''Springfield'' None
            [Node 2 ''ABBR'' ''SPR'' None [], Node 2 ''ABBR'' ''SP'' None []]])
      (YamlItem (Some [NameEntry ''Springfield'' None]) None))))"
  by (simp add: merge_eval)

section \<open>Claims about the parser and the orchestrator\<close>

lemmas parse_eval =
  line_fields_def strip_def is_space_def py_int_def is_int_space_def nat_of_string_def is_digit_def
  digit_val_def startswith_at_def endswith_at_def numeral_2_eq_2
  parse_gedcom_lines_def parse_line_def add_node_def parse_init_def truthy_def

lemmas main_eval =
  main_records_def parse_gedcom_def readlines_def create_new_record_def move_trlr_def

text \<open>
  Claim C4, as the code has it. When parsing does not raise, the run ends with a list of
  records whose last record has the tag TRLR. Only the first TRLR record is moved, and none
  is removed: the list holds as many TRLR records as were parsed from the input, or one if
  none was parsed.
\<close>

theorem trailer_last:
  assumes "parse_gedcom file = Inr (recs0, m0)"
  shows "\<exists>rs. main_records uids clock file ys = Inr rs \<and> rs \<noteq> [] \<and> tag (last rs) = ''TRLR'' \<and>
           count_tag ''TRLR'' rs = max 1 (count_tag ''TRLR'' recs0)"
  using assms move_trlr_props [of "fst (merge_loop uids clock 0 ys (recs0, m0))"]
  by (simp add: main_records_def count_tag_merge_loop)

theorem trailer_last_witness:
  "(\<exists>rs. main_records (\<lambda>_. ''A1'') (\<lambda>_. (''01 JAN 2024'', ''12:30:00.5''))
            (Some ''0 TRLR\<newline>0 HEAD\<newline>'') [] = Inr rs \<and> rs \<noteq> [] \<and>
          tag (last rs) = ''TRLR'' \<and> count_tag ''TRLR'' rs = 1) \<and>
   main_records (\<lambda>_. ''A1'') (\<lambda>_. (''01 JAN 2024'', ''12:30:00.5''))
     (Some ''0 TRLR\<newline>0 HEAD\<newline>'') [] =
   Inr [Node 0 ''HEAD'' '''' None [], Node 0 ''TRLR'' '''' None []]"
proof -
  have "parse_gedcom (Some ''0 TRLR\<newline>0 HEAD\<newline>'') =
          Inr ([Node 0 ''TRLR'' '''' None [], Node 0 ''HEAD'' '''' None []], Map.empty)"
    by (simp add: parse_gedcom_def readlines_def parse_eval)
  from trailer_last [OF this, of "\<lambda>_. ''A1''" "\<lambda>_. (''01 JAN 2024'', ''12:30:00.5'')" "[]"]
  show ?thesis
    by (simp add: count_tag_def main_eval parse_eval)
qed

text \<open>
  Claim C4 as stated fails: of two TRLR records in the input, the first is moved to the
  end and the second stays, so the output holds two.
\<close>

theorem two_trailers_counterexample:
  "main_records (\<lambda>_. ''A1'') (\<lambda>_. (''01 JAN 2024'', ''12:30:00.5''))
     (Some ''0 TRLR\<newline>0 HEAD\<newline>0 TRLR\<newline>'') [] =
   Inr [Node 0 ''HEAD'' '''' None [], Node 0 ''TRLR'' '''' None [], Node 0 ''TRLR'' '''' None []] \<and>
   count_tag ''TRLR''
     [Node 0 ''HEAD'' '''' None [], Node 0 ''TRLR'' '''' None [], Node 0 ''TRLR'' '''' None []] = 2"
  by (simp add: count_tag_def main_eval parse_eval)

text \<open>
  Claim C6. With no existing file, or an empty one, and the one external record
  \<^verbatim>\<open>{id: "L1", names: [{name: "Springfield"}]}\<close>, the run ends with two records: the
  location record \<^verbatim>\<open>@L1@\<close> with a generated unique-id child, a change-metadata child
  and the name child Springfield, and then a trailer record.
\<close>

theorem new_record_synthesis:
  "main_records uids clock None [(''L1'', YamlItem (Some [NameEntry ''Springfield'' None]) None)] =
     Inr [Node 0 ''_LOC'' '''' (Some ''@L1@'')
            [Node 1 ''_UID'' (uids 0) None [],
             create_chan_node (clock 0),
             Node 1 ''NAME'' ''Springfield'' None []],
          Node 0 ''TRLR'' '''' None []] \<and>
   main_records uids clock (Some '''') [(''L1'', YamlItem (Some [NameEntry ''Springfield'' None]) None)] =
     Inr [Node 0 ''_LOC'' '''' (Some ''@L1@'')
            [Node 1 ''_UID'' (uids 0) None [],
             create_chan_node (clock 0),
             Node 1 ''NAME'' ''Springfield'' None []],
          Node 0 ''TRLR'' '''' None []]"
  by (simp add: main_eval parse_eval merge_eval)

theorem new_record_synthesis_witness:
  "main_records (\<lambda>_. ''0F1E2D3C4B5A69788796A5B4C3D2E1F0'') (\<lambda>_. (''01 JAN 2024'', ''12:30:00.5'')) None
     [(''L1'', YamlItem (Some [NameEntry ''Springfield'' None]) None)] =
     Inr [Node 0 ''_LOC'' '''' (Some ''@L1@'')
            [Node 1 ''_UID'' ''0F1E2D3C4B5A69788796A5B4C3D2E1F0'' None [],
             Node 1 ''CHAN'' '''' None
               [Node 2 ''DATE'' ''01 JAN 2024'' None [Node 3 ''TIME'' ''12:30:00.5'' None []]],
             Node 1 ''NAME'' ''Springfield'' None []],
          Node 0 ''TRLR'' '''' None []]"
  using new_record_synthesis [of "\<lambda>_. ''0F1E2D3C4B5A69788796A5B4C3D2E1F0''"
      "\<lambda>_. (''01 JAN 2024'', ''12:30:00.5'')"]
  by (simp add: create_chan_node_def)

text \<open>
  Claim C8. A line whose fields are level 0, tag _LOC, no cross-reference id and a value
  that starts and ends with \<^verbatim>\<open>@\<close> is skipped without an error: the state after the
  line is the state before it, so no record and no entry of the identifier index is
  added, and parsing goes on with the next line.
\<close>

theorem garbage_line_discarded:
  assumes "line_fields line = Inr (Some (0, ''_LOC'', v, None))"
    and "startswith_at v" and "endswith_at v"
  shows "parse_line line st = Inr st \<and> parse_lines (line # rest) st = parse_lines rest st"
  using assms by (simp add: parse_line_def add_node_def truthy_def)

theorem garbage_line_discarded_witness:
  "parse_line ''0 _LOC @L1@''
      \<lparr>all_records = [Node 0 ''HEAD'' '''' None []], id_map = Map.empty, stack = [(0, [0])]\<rparr>
     = Inr \<lparr>all_records = [Node 0 ''HEAD'' '''' None []], id_map = Map.empty, stack = [(0, [0])]\<rparr> \<and>
   parse_lines [''0 _LOC @L1@'', ''1 NAME x'']
      \<lparr>all_records = [Node 0 ''HEAD'' '''' None []], id_map = Map.empty, stack = [(0, [0])]\<rparr>
     = Inr \<lparr>all_records = [Node 0 ''HEAD'' '''' None [Node 1 ''NAME'' ''x'' None []]],
            id_map = Map.empty, stack = [(1, [0, 0]), (0, [0])]\<rparr>"
proof -
  have "line_fields ''0 _LOC @L1@'' = Inr (Some (0, ''_LOC'', ''@L1@'', None))"
    by (simp add: parse_eval)
  from garbage_line_discarded [OF this,
      of "\<lparr>all_records = [Node 0 ''HEAD'' '''' None []], id_map = Map.empty, stack = [(0, [0])]\<rparr>"
         "[''1 NAME x'']"]
  show ?thesis
    by (simp add: parse_eval)
qed

text \<open>
  Claim C9. A line with a level above 0 that finds no entry of a smaller level on the
  stack (the stack is empty, or every entry has at least the level of the line) is dropped
  without an error: the records and the identifier index stay as they are, the stack is
  left empty, and parsing goes on with the next line.
\<close>

theorem orphan_dropped:
  assumes "line_fields line = Inr (Some (lev, t, v, x))"
    and "0 < lev"
    and "\<forall>e\<in>set (stack st). lev \<le> fst e"
  shows "parse_line line st = Inr (st\<lparr>stack := []\<rparr>) \<and>
         parse_lines (line # rest) st = parse_lines rest (st\<lparr>stack := []\<rparr>)"
  using assms by (simp add: parse_line_def add_node_def pop_stack_all)

theorem orphan_dropped_witness:
  "parse_line ''1 NAME x'' parse_init = Inr parse_init \<and>
   parse_lines [''1 NAME x'', ''2 DATE y'', ''0 HEAD''] parse_init =
     Inr \<lparr>all_records = [Node 0 ''HEAD'' '''' None []], id_map = Map.empty, stack = [(0, [0])]\<rparr>"
proof -
  have "line_fields ''1 NAME x'' = Inr (Some (1, ''NAME'', ''x'', None))"
    by (simp add: parse_eval)
  from orphan_dropped [OF this, of parse_init "[''2 DATE y'', ''0 HEAD'']"]
  show ?thesis
    by (simp add: parse_eval)
qed

text \<open>
  Claim C10 fails on the code. The line \<^verbatim>\<open>0\<close> has one part only, which is an integer;
  it carries no cross-reference id, so the code reads \<^verbatim>\<open>parts[1]\<close> and raises
  \<^verbatim>\<open>IndexError\<close>.
\<close>

theorem bare_level_line_raises: "parse_gedcom_lines [''0''] = Inl IndexError"
  by (simp add: parse_eval)

text \<open>
  Claim C2. Let the parser return the records \<open>recs\<close> (and the identifier index
  \<open>m\<close>) for the lines of some text. Then parsing the text that the serializer writes
  for \<open>recs\<close> does not raise, and serializing its result gives the same text again,
  character by character; the parser even returns the same records and the same index.
\<close>

theorem round_trip:
  assumes "parse_gedcom_lines (readlines text) = Inr (recs, m)"
  shows "\<exists>recs' m'. parse_gedcom_lines (readlines (write_records recs)) = Inr (recs', m') \<and>
           write_records recs' = write_records recs \<and> recs' = recs \<and> m' = m"
proof -
  from reparse [OF parse_gedcom_lines_wf [OF assms]] obtain m' where
    r: "parse_gedcom_lines (readlines (write_records recs)) = Inr (recs, m')" ..
  from parse_gedcom_lines_id_index [OF r] parse_gedcom_lines_id_index [OF assms]
  have "m' = m" by simp
  with r show ?thesis by simp
qed

lemmas write_eval =
  write_records_def py_str_def nat_digits.simps truthy_def

theorem round_trip_witness:
  "write_records
     [Node 0 ''HEAD'' '''' None [Node 1 ''SOUR'' '' x  y'' None [], Node 1 ''NAME'' ''n'' None []],
      Node 0 ''_LOC'' '''' (Some ''@L1@'') [Node 3 ''NAME'' ''A'' None [], Node 2 ''DATE'' ''1900'' None []],
      Node 0 ''TRLR'' '''' None []] =
     ''0 HEAD\<newline>1 SOUR  x  y\<newline>1 NAME n\<newline>0 @L1@ _LOC\<newline>3 NAME A\<newline>2 DATE 1900\<newline>0 TRLR\<newline>'' \<and>
   (\<exists>recs' m'. parse_gedcom_lines (readlines (write_records
      [Node 0 ''HEAD'' '''' None [Node 1 ''SOUR'' '' x  y'' None [], Node 1 ''NAME'' ''n'' None []],
       Node 0 ''_LOC'' '''' (Some ''@L1@'') [Node 3 ''NAME'' ''A'' None [], Node 2 ''DATE'' ''1900'' None []],
       Node 0 ''TRLR'' '''' None []])) = Inr (recs', m') \<and>
     write_records recs' =
       ''0 HEAD\<newline>1 SOUR  x  y\<newline>1 NAME n\<newline>0 @L1@ _LOC\<newline>3 NAME A\<newline>2 DATE 1900\<newline>0 TRLR\<newline>'')"
proof -
  have p: "parse_gedcom_lines (readlines
      (''00 HEAD'' @ [CHR 0x0D, CHR 0x0A] @ ''1 SOUR  x  y  \<newline>0 _LOC @L9@\<newline>1 NAME n\<newline>0 @L1@ _LOC\<newline>3 NAME A\<newline>2 DATE 1900\<newline>-1 X\<newline>1 NOTE lost\<newline>0 TRLR'')) =
     Inr ([Node 0 ''HEAD'' '''' None [Node 1 ''SOUR'' '' x  y'' None [], Node 1 ''NAME'' ''n'' None []],
           Node 0 ''_LOC'' '''' (Some ''@L1@'') [Node 3 ''NAME'' ''A'' None [], Node 2 ''DATE'' ''1900'' None []],
           Node 0 ''TRLR'' '''' None []], [''L1'' \<mapsto> 1])"
    by (simp add: readlines_def parse_eval strip_at_def)
  have w: "write_records
     [Node 0 ''HEAD'' '''' None [Node 1 ''SOUR'' '' x  y'' None [], Node 1 ''NAME'' ''n'' None []],
      Node 0 ''_LOC'' '''' (Some ''@L1@'') [Node 3 ''NAME'' ''A'' None [], Node 2 ''DATE'' ''1900'' None []],
      Node 0 ''TRLR'' '''' None []] =
     ''0 HEAD\<newline>1 SOUR  x  y\<newline>1 NAME n\<newline>0 @L1@ _LOC\<newline>3 NAME A\<newline>2 DATE 1900\<newline>0 TRLR\<newline>''"
    by (simp add: write_eval)
  from round_trip [OF p] w show ?thesis by auto
qed

end
